theory Spec2Isabelle
  imports Complex_Main "HOL-Library.Multiset"
begin

unbundle bit_operations_syntax

section \<open>Python values and exceptions\<close>

text \<open>
  Python integers are unbounded (\<open>int\<close>), floats are read as exact reals and numpy's
  complex arrays as lists of \<open>complex\<close>: rounding is outside this model. An exception
  is the \<open>Inl\<close> of a sum. \<open>KeyboardInterrupt\<close> and \<open>SystemExit\<close> derive from
  \<open>BaseException\<close> only, so \<open>except Exception\<close> does not catch them.
\<close>

datatype error =
  ValueError | TypeError | IndexError | OverflowError | KeyboardInterrupt | SystemExit

definition is_Exception :: "error \<Rightarrow> bool" where
  "is_Exception e = (e \<noteq> KeyboardInterrupt \<and> e \<noteq> SystemExit)"

section \<open>qubo/circuit.py\<close>

record Gate =
  name :: string
  targets :: "int list"
  params :: "real list"

text \<open>\<open>Gate.__init__\<close>: \<open>self.params = params or []\<close>.\<close>

definition Gate_init :: "string \<Rightarrow> int list \<Rightarrow> real list option \<Rightarrow> Gate" where
  "Gate_init nm tgts prms =
     \<lparr>name = nm, targets = tgts, params = (case prms of None \<Rightarrow> [] | Some ps \<Rightarrow> ps)\<rparr>"

record QuantumCircuit =
  num_qubits :: int
  gates :: "Gate list"
  registers :: "string \<rightharpoonup> int"

definition QuantumCircuit_init :: "int \<Rightarrow> QuantumCircuit" where
  "QuantumCircuit_init n = \<lparr>num_qubits = n, gates = [], registers = Map.empty\<rparr>"

text \<open>
  The first argument of \<open>add_gate\<close> is a \<open>Gate\<close> instance, a string, or anything else
  (the \<open>TypeError\<close> fallback).
\<close>

datatype gate_arg = GateInstance Gate | GateName string | OtherObject

definition add_gate ::
  "QuantumCircuit \<Rightarrow> gate_arg \<Rightarrow> int list option \<Rightarrow> real list option \<Rightarrow> error + QuantumCircuit"
where
  "add_gate self gate tgts prms =
     (case gate of
        GateInstance g \<Rightarrow> Inr (self\<lparr>gates := gates self @ [g]\<rparr>)
      | GateName nm \<Rightarrow>
          (case tgts of
             None \<Rightarrow> Inl ValueError
           | Some ts \<Rightarrow> Inr (self\<lparr>gates := gates self @ [Gate_init nm ts prms]\<rparr>))
      | OtherObject \<Rightarrow> Inl TypeError)"

section \<open>numpy's global generator\<close>

text \<open>
  \<open>np.random\<close> is one process-wide generator. Its algorithm is not part of the
  repository, so the three calls the code makes are parameters of the model, over a type
  \<open>'g\<close> of generator states: \<open>np.random.seed(s)\<close> replaces the state,
  \<open>np.random.rand()\<close> draws a float of \<open>[0, 1)\<close>, and
  \<open>np.random.choice(a, size=k, p=probs)\<close> draws \<open>k\<close> indices below \<open>a\<close>.
\<close>

record 'g np_random =
  np_seed :: "int \<Rightarrow> error + 'g"
  np_rand :: "'g \<Rightarrow> real \<times> 'g"
  np_choice :: "nat \<Rightarrow> int \<Rightarrow> real list \<Rightarrow> 'g \<Rightarrow> (error + nat list) \<times> 'g"

section \<open>qubo/noise.py\<close>

text \<open>
  \<open>bit_flip\<close>: the loop over \<open>range(len(state))\<close> draws once per index and, when the
  draw is below \<open>p\<close>, exchanges \<open>new_state[i]\<close> and \<open>new_state[j]\<close> in the array being
  built. \<open>1 << target\<close> raises for a negative \<open>target\<close>, \<open>new_state[j]\<close> for \<open>j\<close> out of
  range, and \<open>int(np.log2(0))\<close> for an empty array.
\<close>

fun bit_flip_loop ::
  "'g np_random \<Rightarrow> real \<Rightarrow> int \<Rightarrow> nat list \<Rightarrow> complex list \<Rightarrow> 'g \<Rightarrow> (error + complex list) \<times> 'g"
where
  "bit_flip_loop R p target [] new_state g = (Inr new_state, g)"
| "bit_flip_loop R p target (i # rest) new_state g =
     (case np_rand R g of (r, g') \<Rightarrow>
        if r < p then
          (if target < 0 then (Inl ValueError, g')
           else let j = i XOR push_bit (nat target) 1 in
             if j < length new_state
             then bit_flip_loop R p target rest
                    (new_state[i := new_state ! j, j := new_state ! i]) g'
             else (Inl IndexError, g'))
        else bit_flip_loop R p target rest new_state g')"

definition bit_flip ::
  "'g np_random \<Rightarrow> complex list \<Rightarrow> real \<Rightarrow> int \<Rightarrow> 'g \<Rightarrow> (error + complex list) \<times> 'g"
where
  "bit_flip R st p target g =
     (if length st = 0 then (Inl OverflowError, g)
      else bit_flip_loop R p target [0..<length st] st g)"

section \<open>qubo/simulator.py\<close>

subsection \<open>numpy arrays of shape \<open>[2]*n\<close>\<close>

text \<open>
  An array of shape \<open>[2]*n\<close> is its flat data in C order: axis \<open>0\<close> is the slowest, so
  the entry at multi-index \<open>c\<close> is at flat position \<open>np_ravel c\<close>, and axis \<open>k\<close> is bit
  \<open>n - 1 - k\<close> of the flat position.
\<close>

definition np_unravel :: "nat \<Rightarrow> nat \<Rightarrow> nat list" where
  "np_unravel n i = map (\<lambda>k. (i div 2 ^ (n - 1 - k)) mod 2) [0..<n]"

definition np_ravel :: "nat list \<Rightarrow> nat" where
  "np_ravel c = foldl (\<lambda>acc b. 2 * acc + b) 0 c"

text \<open>\<open>np.argsort\<close>: the indices in the order of their keys.\<close>

definition np_argsort :: "nat list \<Rightarrow> nat list" where
  "np_argsort xs = sort_key (\<lambda>i. xs ! i) [0..<length xs]"

text \<open>
  \<open>np.transpose(a, axes)\<close> on shape \<open>[2]*n\<close>: axis \<open>k\<close> of the result is axis
  \<open>axes[k]\<close> of \<open>a\<close>, so the entry at \<open>c\<close> is the entry of \<open>a\<close> at \<open>d\<close> with
  \<open>d[axes[k]] = c[k]\<close>, that is \<open>d[j] = c[argsort(axes)[j]]\<close>. It raises unless
  \<open>axes\<close> has \<open>n\<close> entries, each an axis (negative ones count from the end), none
  repeated.
\<close>

definition normalize_axis :: "nat \<Rightarrow> int \<Rightarrow> nat" where
  "normalize_axis n a = (if a < 0 then nat (int n + a) else nat a)"

definition np_transpose :: "nat \<Rightarrow> int list \<Rightarrow> complex list \<Rightarrow> error + complex list" where
  "np_transpose n axes a =
     (if length axes \<noteq> n \<or> \<not> list_all (\<lambda>x. - int n \<le> x \<and> x < int n) axes
         \<or> \<not> distinct (map (normalize_axis n) axes)
      then Inl ValueError
      else let inv = np_argsort (map (normalize_axis n) axes) in
        Inr (map (\<lambda>i. a ! np_ravel (map (\<lambda>j. np_unravel n i ! j) inv)) [0..<2 ^ n]))"

text \<open>\<open>U @ t\<close> for a 2x2 \<open>U\<close> and \<open>t\<close> of shape \<open>(2, m)\<close>, flat.\<close>

definition matmul :: "complex list list \<Rightarrow> nat \<Rightarrow> complex list \<Rightarrow> complex list" where
  "matmul U m t =
     map (\<lambda>c. U ! 0 ! 0 * t ! c + U ! 0 ! 1 * t ! (m + c)) [0..<m] @
     map (\<lambda>c. U ! 1 ! 0 * t ! c + U ! 1 ! 1 * t ! (m + c)) [0..<m]"

text \<open>
  \<open>_apply_single_qubit_unitary\<close>: \<open>reshape([2]*n)\<close> raises unless the array has
  \<open>2^n\<close> entries; \<open>axes\<close> is \<open>[target]\<close> followed by the other axes of \<open>range(n)\<close>.
\<close>

definition apply_single_qubit_unitary ::
  "nat \<Rightarrow> complex list \<Rightarrow> complex list list \<Rightarrow> int \<Rightarrow> error + complex list"
where
  "apply_single_qubit_unitary n st U target =
     (if length st \<noteq> 2 ^ n then Inl ValueError
      else let axes = target # filter (\<lambda>i. i \<noteq> target) (map int [0..<n]) in
        case np_transpose n axes st of
          Inl e \<Rightarrow> Inl e
        | Inr t \<Rightarrow>
            let t' = matmul U (2 ^ n div 2) t;
                inv_axes = map int (np_argsort (map (normalize_axis n) axes))
            in np_transpose n inv_axes t')"

text \<open>
  \<open>_apply_cnot\<close>: \<open>new[i], new[j] = state[j], state[i]\<close> for every \<open>i\<close> whose bit
  \<open>control\<close> is set, with \<open>j = i ^ (1 << target)\<close>. A negative shift count raises
  \<open>ValueError\<close>, \<open>state[j]\<close> out of range \<open>IndexError\<close>.
\<close>

fun cnot_loop ::
  "complex list \<Rightarrow> int \<Rightarrow> int \<Rightarrow> nat list \<Rightarrow> complex list \<Rightarrow> error + complex list"
where
  "cnot_loop st control target [] new = Inr new"
| "cnot_loop st control target (i # rest) new =
     (if control < 0 then Inl ValueError
      else if drop_bit (nat control) i AND 1 = 1 then
        (if target < 0 then Inl ValueError
         else let j = i XOR push_bit (nat target) 1 in
           if j < length st
           then cnot_loop st control target rest (new[i := st ! j, j := st ! i])
           else Inl IndexError)
      else cnot_loop st control target rest new)"

definition apply_cnot :: "complex list \<Rightarrow> int \<Rightarrow> int \<Rightarrow> error + complex list" where
  "apply_cnot st control target = cnot_loop st control target [0..<length st] st"

text \<open>\<open>_apply_swap\<close>: \<open>new[i] = state[j]\<close> where bits \<open>a\<close> and \<open>b\<close> of \<open>i\<close> differ.\<close>

fun swap_loop ::
  "complex list \<Rightarrow> int \<Rightarrow> int \<Rightarrow> nat list \<Rightarrow> complex list \<Rightarrow> error + complex list"
where
  "swap_loop st a b [] new = Inr new"
| "swap_loop st a b (i # rest) new =
     (if a < 0 \<or> b < 0 then Inl ValueError
      else let bit_a = drop_bit (nat a) i AND 1; bit_b = drop_bit (nat b) i AND 1 in
        if bit_a \<noteq> bit_b then
          (let j = i XOR (push_bit (nat a) 1 OR push_bit (nat b) 1) in
             if j < length st then swap_loop st a b rest (new[i := st ! j])
             else Inl IndexError)
        else swap_loop st a b rest (new[i := st ! i]))"

definition apply_swap :: "complex list \<Rightarrow> int \<Rightarrow> int \<Rightarrow> error + complex list" where
  "apply_swap st a b = swap_loop st a b [0..<length st] st"

subsection \<open>The gate matrices built in \<open>run\<close>\<close>

definition H_matrix :: "complex list list" where
  "H_matrix = map (map (\<lambda>x. complex_of_real (1 / sqrt 2) * x)) [[1, 1], [1, - 1]]"

definition X_matrix :: "complex list list" where
  "X_matrix = [[0, 1], [1, 0]]"

definition RX_matrix :: "real \<Rightarrow> complex list list" where
  "RX_matrix theta =
     [[complex_of_real (cos (theta / 2)), - \<i> * complex_of_real (sin (theta / 2))],
      [- \<i> * complex_of_real (sin (theta / 2)), complex_of_real (cos (theta / 2))]]"

definition RY_matrix :: "real \<Rightarrow> complex list list" where
  "RY_matrix theta =
     [[complex_of_real (cos (theta / 2)), - complex_of_real (sin (theta / 2))],
      [complex_of_real (sin (theta / 2)), complex_of_real (cos (theta / 2))]]"

definition RZ_matrix :: "real \<Rightarrow> complex list list" where
  "RZ_matrix theta =
     [[exp (- (\<i> * complex_of_real theta / 2)), 0],
      [0, exp (\<i> * complex_of_real theta / 2)]]"

text \<open>\<open>theta = gate.params[0] if gate.params else 0.0\<close>\<close>

definition theta_of :: "Gate \<Rightarrow> real" where
  "theta_of gate = (case params gate of [] \<Rightarrow> 0 | p # _ \<Rightarrow> p)"

subsection \<open>Measurement\<close>

text \<open>\<open>format(r, '0{n}b')\<close>: the binary digits of \<open>r\<close>, zero-padded on the left to width \<open>n\<close>.\<close>

fun bin_digits :: "nat \<Rightarrow> string" where
  "bin_digits r =
     (if r < 2 then [if r = 0 then CHR ''0'' else CHR ''1'']
      else bin_digits (r div 2) @ [if r mod 2 = 0 then CHR ''0'' else CHR ''1''])"

declare bin_digits.simps [simp del]

definition format_bin :: "nat \<Rightarrow> nat \<Rightarrow> string" where
  "format_bin n r = replicate (n - length (bin_digits r)) CHR ''0'' @ bin_digits r"

fun tally :: "nat \<Rightarrow> nat list \<Rightarrow> (string \<rightharpoonup> nat) \<Rightarrow> (string \<rightharpoonup> nat)" where
  "tally n [] counts = counts"
| "tally n (r # results) counts =
     tally n results
       (counts(format_bin n r \<mapsto> (case counts (format_bin n r) of None \<Rightarrow> 0 | Some c \<Rightarrow> c) + 1))"

datatype run_result = Statevector "complex list" | Counts "string \<rightharpoonup> nat"

definition measure_counts ::
  "'g np_random \<Rightarrow> nat \<Rightarrow> int \<Rightarrow> complex list \<Rightarrow> 'g \<Rightarrow> (error + run_result) \<times> 'g"
where
  "measure_counts R n shots st g =
     (let probs = map (\<lambda>z. (cmod z)\<^sup>2) st in
        case np_choice R (length probs) shots probs g of
          (Inl e, g') \<Rightarrow> (Inl e, g')
        | (Inr results, g') \<Rightarrow> (Inr (Counts (tally n results Map.empty)), g'))"

subsection \<open>\<open>StatevectorSimulator\<close>\<close>

text \<open>
  The noise hook is called as \<open>noise_hook(state, gate)\<close> with the working array itself,
  not a copy, and it may draw from the global generator. A call gives three things: the
  contents of the array it was handed once the call is over (the hook may have written
  into it), what the call did (the array it returned, or the exception it raised), and
  the generator state it left.
\<close>

type_synonym 'g noise_hook =
  "complex list \<Rightarrow> Gate \<Rightarrow> 'g \<Rightarrow> complex list \<times> (error + complex list) \<times> 'g"

record 'g StatevectorSimulator =
  circuit :: QuantumCircuit
  sim_num_qubits :: nat
  sim_state :: "complex list"
  noise_hook :: "'g noise_hook option"

text \<open>
  \<open>__init__\<close>: \<open>np.zeros(2 ** n)\<close> raises \<open>TypeError\<close> for a negative \<open>n\<close> (the power is
  a float); a seed is written to the global generator.
\<close>

definition StatevectorSimulator_init ::
  "'g np_random \<Rightarrow> QuantumCircuit \<Rightarrow> 'g noise_hook option \<Rightarrow> int option \<Rightarrow> 'g
     \<Rightarrow> (error + 'g StatevectorSimulator) \<times> 'g"
where
  "StatevectorSimulator_init R circ hook seed g =
     (if num_qubits circ < 0 then (Inl TypeError, g)
      else let n = nat (num_qubits circ);
               self = \<lparr>circuit = circ, sim_num_qubits = n,
                       sim_state = (replicate (2 ^ n) 0)[0 := 1], noise_hook = hook\<rparr>
        in case seed of
             None \<Rightarrow> (Inr self, g)
           | Some s \<Rightarrow> (case np_seed R s of Inl e \<Rightarrow> (Inl e, g) | Inr g' \<Rightarrow> (Inr self, g')))"

text \<open>
  One pass of the loop body of \<open>run\<close> up to the noise hook: the \<open>if/elif\<close> chain on the
  gate's name, in the source's order. A name that matches no branch falls through.
\<close>

datatype 'g step = Continue "complex list" | Return "(error + run_result) \<times> 'g"

definition on_target :: "Gate \<Rightarrow> (int \<Rightarrow> error + complex list) \<Rightarrow> 'g \<Rightarrow> 'g step" where
  "on_target gate f g =
     (case targets gate of
        [] \<Rightarrow> Return (Inl IndexError, g)
      | t # _ \<Rightarrow> (case f t of Inl e \<Rightarrow> Return (Inl e, g) | Inr st' \<Rightarrow> Continue st'))"

definition on_two_targets :: "Gate \<Rightarrow> (int \<Rightarrow> int \<Rightarrow> error + complex list) \<Rightarrow> 'g \<Rightarrow> 'g step" where
  "on_two_targets gate f g =
     (case targets gate of
        t0 # t1 # _ \<Rightarrow> (case f t0 t1 of Inl e \<Rightarrow> Return (Inl e, g) | Inr st' \<Rightarrow> Continue st')
      | _ \<Rightarrow> Return (Inl IndexError, g))"

definition gate_step ::
  "'g np_random \<Rightarrow> nat \<Rightarrow> int \<Rightarrow> Gate \<Rightarrow> complex list \<Rightarrow> 'g \<Rightarrow> 'g step"
where
  "gate_step R n shots gate st g =
     (if name gate = ''H'' then
        on_target gate (apply_single_qubit_unitary n st H_matrix) g
      else if name gate = ''X'' then
        on_target gate (apply_single_qubit_unitary n st X_matrix) g
      else if name gate = ''RX'' then
        on_target gate (apply_single_qubit_unitary n st (RX_matrix (theta_of gate))) g
      else if name gate = ''RY'' then
        on_target gate (apply_single_qubit_unitary n st (RY_matrix (theta_of gate))) g
      else if name gate = ''RZ'' then
        on_target gate (apply_single_qubit_unitary n st (RZ_matrix (theta_of gate))) g
      else if name gate = ''CNOT'' then
        on_two_targets gate (apply_cnot st) g
      else if name gate = ''SWAP'' then
        on_two_targets gate (apply_swap st) g
      else if name gate = ''M'' \<or> name gate = ''Measure'' then
        Return (measure_counts R n shots st g)
      else Continue st)"

text \<open>
  The loop of \<open>run\<close>: after a gate that did not return, the noise hook (if any) is called
  inside \<open>try/except Exception: pass\<close>. When the hook returns, \<open>state\<close> is bound to
  what it returned. When it raises an \<open>Exception\<close>, \<open>state\<close> stays bound to the array
  that was handed to the hook, with whatever the hook wrote into it before raising; nothing
  is restored. Any other exception leaves \<open>run\<close>.
\<close>

fun run_gates ::
  "'g np_random \<Rightarrow> 'g noise_hook option \<Rightarrow> nat \<Rightarrow> int \<Rightarrow> Gate list \<Rightarrow> complex list \<Rightarrow> 'g
     \<Rightarrow> (error + run_result) \<times> 'g"
where
  "run_gates R hook n shots [] st g = (Inr (Statevector st), g)"
| "run_gates R hook n shots (gate # rest) st g =
     (case gate_step R n shots gate st g of
        Return r \<Rightarrow> r
      | Continue st' \<Rightarrow>
          (case hook of
             None \<Rightarrow> run_gates R hook n shots rest st' g
           | Some h \<Rightarrow>
               (case h st' gate g of
                  (written, Inl e, g') \<Rightarrow>
                    if is_Exception e then run_gates R hook n shots rest written g'
                    else (Inl e, g')
                | (written, Inr st'', g') \<Rightarrow> run_gates R hook n shots rest st'' g')))"

definition run ::
  "'g np_random \<Rightarrow> 'g StatevectorSimulator \<Rightarrow> int \<Rightarrow> 'g \<Rightarrow> (error + run_result) \<times> 'g"
where
  "run R self shots g =
     run_gates R (noise_hook self) (sim_num_qubits self) shots (gates (circuit self))
       (sim_state self) g"

section \<open>A small generator for concrete runs\<close>

text \<open>
  An instance of the generator interface used where a run has to be evaluated: a linear
  congruential generator on the states \<open>0..7\<close>, with \<open>choice\<close> by inverse
  cumulative distribution.
\<close>

definition lcg_next :: "nat \<Rightarrow> nat" where
  "lcg_next g = (5 * g + 3) mod 8"

definition lcg_rand :: "nat \<Rightarrow> real \<times> nat" where
  "lcg_rand g = (real (g mod 8) / 8, lcg_next g)"

definition lcg_seed :: "int \<Rightarrow> error + nat" where
  "lcg_seed s = (if 0 \<le> s \<and> s < 2 ^ 32 then Inr (nat s mod 8) else Inl ValueError)"

fun lcg_pick :: "real \<Rightarrow> real list \<Rightarrow> nat" where
  "lcg_pick u [] = 0"
| "lcg_pick u (p # ps) = (if u < p then 0 else Suc (lcg_pick (u - p) ps))"

fun lcg_draws :: "nat \<Rightarrow> real list \<Rightarrow> nat \<Rightarrow> nat list \<times> nat" where
  "lcg_draws 0 probs g = ([], g)"
| "lcg_draws (Suc k) probs g =
     (case lcg_rand g of (u, g') \<Rightarrow>
        case lcg_draws k probs g' of (rs, g'') \<Rightarrow> (lcg_pick u probs # rs, g''))"

definition lcg_choice :: "nat \<Rightarrow> int \<Rightarrow> real list \<Rightarrow> nat \<Rightarrow> (error + nat list) \<times> nat" where
  "lcg_choice a k probs g =
     (if k < 0 \<or> length probs \<noteq> a \<or> sum_list probs \<noteq> 1 then (Inl ValueError, g)
      else case lcg_draws (nat k) probs g of (rs, g') \<Rightarrow> (Inr rs, g'))"

definition lcg :: "nat np_random" where
  "lcg = \<lparr>np_seed = lcg_seed, np_rand = lcg_rand, np_choice = lcg_choice\<rparr>"

section \<open>Client programs\<close>

text \<open>
  \<open>StatevectorSimulator(circuit, noise_hook, seed).run(shots)\<close>, as the tests write it:
  construct, then run at once.
\<close>

definition build_and_run ::
  "'g np_random \<Rightarrow> QuantumCircuit \<Rightarrow> 'g noise_hook option \<Rightarrow> int option \<Rightarrow> int \<Rightarrow> 'g
     \<Rightarrow> (error + run_result) \<times> 'g"
where
  "build_and_run R circ hook seed shots g =
     (case StatevectorSimulator_init R circ hook seed g of
        (Inl e, g') \<Rightarrow> (Inl e, g')
      | (Inr self, g') \<Rightarrow> run R self shots g')"

text \<open>
  The determinism test of the specification: two simulators are built with the same seed
  over the same circuit, then each is run; the results are returned as a pair.
\<close>

definition two_simulators_same_seed ::
  "'g np_random \<Rightarrow> QuantumCircuit \<Rightarrow> int \<Rightarrow> int \<Rightarrow> 'g \<Rightarrow> ((error + run_result) \<times> (error + run_result)) option"
where
  "two_simulators_same_seed R circ seed shots g0 =
     (case StatevectorSimulator_init R circ None (Some seed) g0 of
        (Inl e, g1) \<Rightarrow> None
      | (Inr sim1, g1) \<Rightarrow>
          (case StatevectorSimulator_init R circ None (Some seed) g1 of
             (Inl e, g2) \<Rightarrow> None
           | (Inr sim2, g2) \<Rightarrow>
               (case run R sim1 shots g2 of (r1, g3) \<Rightarrow>
                  case run R sim2 shots g3 of (r2, g4) \<Rightarrow> Some (r1, r2))))"

text \<open>Circuits of the examples, as \<open>add_gate\<close> builds them.\<close>

definition x_cnot_circuit :: QuantumCircuit where
  "x_cnot_circuit =
     \<lparr>num_qubits = 2, gates = [Gate_init ''X'' [0] None, Gate_init ''CNOT'' [0, 1] None],
      registers = Map.empty\<rparr>"

definition x_circuit :: QuantumCircuit where
  "x_circuit = \<lparr>num_qubits = 1, gates = [Gate_init ''X'' [0] None], registers = Map.empty\<rparr>"

text \<open>
  A noise hook that writes into the array it is handed and then raises:
  \<open>def hook(state, gate): state[:] = 0; raise ValueError()\<close>.
\<close>

definition zero_and_raise :: "'g noise_hook" where
  "zero_and_raise st gate g = (map (\<lambda>z. 0) st, Inl ValueError, g)"

definition foo_circuit :: QuantumCircuit where
  "foo_circuit = \<lparr>num_qubits = 1, gates = [Gate_init ''FOO'' [0] None], registers = Map.empty\<rparr>"

definition h_measure_circuit :: QuantumCircuit where
  "h_measure_circuit =
     \<lparr>num_qubits = 1, gates = [Gate_init ''H'' [0] None, Gate_init ''M'' [0] None],
      registers = Map.empty\<rparr>"

definition h_measure_2q_circuit :: QuantumCircuit where
  "h_measure_2q_circuit =
     \<lparr>num_qubits = 2, gates = [Gate_init ''H'' [0] None, Gate_init ''M'' [0] None],
      registers = Map.empty\<rparr>"

definition h_measure_x_2q_circuit :: QuantumCircuit where
  "h_measure_x_2q_circuit =
     \<lparr>num_qubits = 2,
      gates = [Gate_init ''H'' [0] None, Gate_init ''M'' [0] None, Gate_init ''X'' [0] None],
      registers = Map.empty\<rparr>"


section \<open>Index maps used in the proofs\<close>

text \<open>Where \<open>_apply_swap\<close> reads the new entry \<open>i\<close> from.\<close>

definition swap_index :: "nat \<Rightarrow> nat \<Rightarrow> nat \<Rightarrow> nat" where
  "swap_index a b i = (if bit i a \<noteq> bit i b then i XOR (push_bit a 1 OR push_bit b 1) else i)"

text \<open>A list that holds each of \<open>0..n-1\<close> once.\<close>

definition is_perm :: "nat \<Rightarrow> nat list \<Rightarrow> bool" where
  "is_perm n p \<longleftrightarrow> length p = n \<and> distinct p \<and> set p = {..<n}"

text \<open>
  Where \<open>np.transpose\<close> reads entry \<open>i\<close> of its result from, the inverse axes being
  \<open>q\<close>.
\<close>

definition transpose_index :: "nat \<Rightarrow> nat list \<Rightarrow> nat \<Rightarrow> nat" where
  "transpose_index n q i = np_ravel (map (\<lambda>j. np_unravel n i ! j) q)"

text \<open>The \<open>axes\<close> list built in \<open>_apply_single_qubit_unitary\<close>.\<close>

definition target_axes :: "nat \<Rightarrow> int \<Rightarrow> int list" where
  "target_axes n t = t # filter (\<lambda>i. i \<noteq> t) (map int [0..<n])"

text \<open>
  Where \<open>_apply_cnot\<close> reads the new entry \<open>k\<close> of an array of \<open>N\<close> entries from.
\<close>

definition cnot_index :: "nat \<Rightarrow> nat \<Rightarrow> nat \<Rightarrow> nat \<Rightarrow> nat" where
  "cnot_index c t N k =
     (if bit k c \<or> (k XOR 2 ^ t < N \<and> bit (k XOR 2 ^ t) c) then k XOR 2 ^ t else k)"

section \<open>Normalization\<close>

text \<open>The tests' \<open>(abs(state) ** 2).sum()\<close>.\<close>

definition sum_probs :: "complex list \<Rightarrow> real" where
  "sum_probs st = sum_list (map (\<lambda>z. (cmod z)\<^sup>2) st)"

text \<open>The gate names of the normalization property.\<close>

definition unitary_gate_names :: "string set" where
  "unitary_gate_names =
     {''H'', ''X'', ''Y'', ''Z'', ''S'', ''T'', ''RX'', ''RY'', ''RZ'', ''CNOT'', ''SWAP''}"

text \<open>
  The circuit invariant of the specification, for the targets \<open>run\<close> reads: a
  single-qubit gate has a first target, a two-qubit gate a first and a second one, and
  they are qubits of the simulator.
\<close>

definition targets_in_range :: "nat \<Rightarrow> Gate \<Rightarrow> bool" where
  "targets_in_range n gate =
     (if name gate \<in> {''H'', ''X'', ''RX'', ''RY'', ''RZ''} then
        (case targets gate of [] \<Rightarrow> False | t # _ \<Rightarrow> 0 \<le> t \<and> t < int n)
      else if name gate \<in> {''CNOT'', ''SWAP''} then
        (case targets gate of
           t0 # t1 # _ \<Rightarrow> 0 \<le> t0 \<and> t0 < int n \<and> 0 \<le> t1 \<and> t1 < int n
         | _ \<Rightarrow> False)
      else True)"

section \<open>Concrete evaluations\<close>

lemma ground_state_1: "(replicate 2 (0::complex))[0 := 1] = [1, 0]"
  by (simp add: numeral_eq_Suc)

lemma ground_state_2: "(replicate 4 (0::complex))[0 := 1] = [1, 0, 0, 0]"
  by (simp add: numeral_eq_Suc)

lemma x_on_ground_2: "apply_single_qubit_unitary 2 [1, 0, 0, 0] X_matrix 0 = Inr [0, 0, 1, 0]"
  by code_simp

lemma cnot_on_index_2: "apply_cnot [0, 0, 1, 0] 0 1 = Inr [0, 0, 1, 0]"
  by code_simp

lemma x_on_ground_1: "apply_single_qubit_unitary (Suc 0) [1, 0] X_matrix 0 = Inr [0, 1]"
proof -
  have "apply_single_qubit_unitary 1 [1, 0] X_matrix 0 = Inr [0, 1]"
    by code_simp
  then show ?thesis by simp
qed

lemma transpose_one_axis: "np_transpose (Suc 0) [0] [a, b] = Inr [a, b]"
  by (simp add: np_transpose_def np_argsort_def np_unravel_def np_ravel_def normalize_axis_def
      upt_rec numeral_2_eq_2)

lemma h_on_ground_1:
  "apply_single_qubit_unitary (Suc 0) [1, 0] H_matrix 0 =
     Inr [complex_of_real (1 / sqrt 2), complex_of_real (1 / sqrt 2)]"
  by (simp add: apply_single_qubit_unitary_def transpose_one_axis np_argsort_def
      normalize_axis_def matmul_def H_matrix_def)

lemma prob_after_h: "(cmod (1 / complex_of_real (sqrt 2)))\<^sup>2 = 1 / 2"
  by (simp add: norm_divide power_divide)

lemma lcg_choice_from_0: "lcg_choice (Suc (Suc 0)) 3 [1 / 2, 1 / 2] 0 = (Inr [0, 0, 0], 5)"
proof -
  have "lcg_choice 2 3 [1 / 2, 1 / 2] 0 = (Inr [0, 0, 0], 5)"
    by code_simp
  then show ?thesis by (simp add: numeral_2_eq_2)
qed

lemma lcg_choice_from_5: "lcg_choice (Suc (Suc 0)) 3 [1 / 2, 1 / 2] 5 = (Inr [1, 1, 1], 6)"
proof -
  have "lcg_choice 2 3 [1 / 2, 1 / 2] 5 = (Inr [1, 1, 1], 6)"
    by code_simp
  then show ?thesis by (simp add: numeral_2_eq_2)
qed

lemma format_bin_1_0: "format_bin (Suc 0) 0 = ''0''"
  by (simp add: format_bin_def bin_digits.simps)

lemma format_bin_1_1: "format_bin (Suc 0) (Suc 0) = ''1''"
  by (simp add: format_bin_def bin_digits.simps)

lemma tally_three_zeros: "tally (Suc 0) [0, 0, 0] Map.empty = [''0'' \<mapsto> 3]"
  by (simp add: format_bin_1_0 numeral_3_eq_3)

lemma tally_three_ones: "tally (Suc 0) [1, 1, 1] Map.empty = [''1'' \<mapsto> 3]"
  by (simp add: format_bin_1_1 numeral_3_eq_3)

lemma h_measure_from_0:
  "run_gates lcg None (Suc 0) 3 (Gate_init ''H'' [0] None # Gate_init ''M'' [0] None # rest) [1, 0] 0
     = (Inr (Counts [''0'' \<mapsto> 3]), 5)"
  by (simp add: gate_step_def Gate_init_def on_target_def h_on_ground_1 measure_counts_def
      prob_after_h lcg_def lcg_choice_from_0 format_bin_1_0 numeral_3_eq_3)

lemma h_measure_from_5:
  "run_gates lcg None (Suc 0) 3 (Gate_init ''H'' [0] None # Gate_init ''M'' [0] None # rest) [1, 0] 5
     = (Inr (Counts [''1'' \<mapsto> 3]), 6)"
  by (simp add: gate_step_def Gate_init_def on_target_def h_on_ground_1 measure_counts_def
      prob_after_h lcg_def lcg_choice_from_5 format_bin_1_1 numeral_3_eq_3)

lemma gates_h_measure:
  "gates h_measure_circuit = [Gate_init ''H'' [0] None, Gate_init ''M'' [0] None]"
  by (simp add: h_measure_circuit_def)

lemma init_h_measure:
  "StatevectorSimulator_init lcg h_measure_circuit None (Some 0) g =
     (Inr \<lparr>circuit = h_measure_circuit, sim_num_qubits = 1, sim_state = [1, 0], noise_hook = None\<rparr>, 0)"
  by (simp add: StatevectorSimulator_init_def h_measure_circuit_def lcg_def lcg_seed_def ground_state_1)

lemma gates_foo: "gates foo_circuit = [Gate_init ''FOO'' [0] None]"
  by (simp add: foo_circuit_def)

lemma init_foo:
  "StatevectorSimulator_init R foo_circuit None None g =
     (Inr \<lparr>circuit = foo_circuit, sim_num_qubits = 1, sim_state = [1, 0], noise_hook = None\<rparr>, g)"
  by (simp add: StatevectorSimulator_init_def foo_circuit_def ground_state_1)

lemma gates_x_cnot:
  "gates x_cnot_circuit = [Gate_init ''X'' [0] None, Gate_init ''CNOT'' [0, 1] None]"
  by (simp add: x_cnot_circuit_def)

lemma init_x_cnot:
  "StatevectorSimulator_init R x_cnot_circuit None None g =
     (Inr \<lparr>circuit = x_cnot_circuit, sim_num_qubits = 2, sim_state = [1, 0, 0, 0],
           noise_hook = None\<rparr>, g)"
  by (simp add: StatevectorSimulator_init_def x_cnot_circuit_def ground_state_2)

lemma gate_step_x_1:
  "gate_step R (Suc 0) shots (Gate_init ''X'' [0] None) [1, 0] g = Continue [0, 1]"
  by (simp add: gate_step_def Gate_init_def on_target_def x_on_ground_1)

section \<open>The loop of \<open>run\<close>\<close>

lemma gate_step_measure:
  "name m = ''M'' \<or> name m = ''Measure'' \<Longrightarrow>
   gate_step R n shots m st g = Return (measure_counts R n shots st g)"
  by (auto simp add: gate_step_def)

lemma gate_step_unrecognized:
  "name gate \<notin> {''H'', ''X'', ''RX'', ''RY'', ''RZ'', ''CNOT'', ''SWAP'', ''M'', ''Measure''}
   \<Longrightarrow> gate_step R n shots gate st g = Continue st"
  by (simp add: gate_step_def)

section \<open>C3: \<open>add_gate\<close> does not validate\<close>

text \<open>
  C3 (as stated): \<open>add_gate\<close> validates arity and index range and fails with a
  \<open>ValidationError\<close>; \<open>add_gate('CNOT', targets=[0])\<close> fails and appends nothing.
  The code appends the one-target \<open>CNOT\<close> and returns normally.
\<close>

theorem add_gate_cnot_one_target_counterexample:
  "add_gate (QuantumCircuit_init 2) (GateName ''CNOT'') (Some [0]) None =
     Inr \<lparr>num_qubits = 2, gates = [\<lparr>name = ''CNOT'', targets = [0], params = []\<rparr>],
          registers = Map.empty\<rparr>"
  by (simp add: add_gate_def QuantumCircuit_init_def Gate_init_def)

text \<open>
  C3 (amended): \<open>add_gate\<close> checks neither arity nor index range. Given a name and a
  target list it always appends \<open>Gate(name, targets, params)\<close> as given; given a
  \<open>Gate\<close> instance it appends that; the only failures are \<open>ValueError\<close> for a name
  without targets and \<open>TypeError\<close> for any other first argument.
\<close>

theorem add_gate_appends_unvalidated:
  "add_gate c (GateName nm) (Some ts) ps = Inr (c\<lparr>gates := gates c @ [Gate_init nm ts ps]\<rparr>)
   \<and> add_gate c (GateInstance gt) tso ps = Inr (c\<lparr>gates := gates c @ [gt]\<rparr>)
   \<and> add_gate c (GateName nm) None ps = Inl ValueError
   \<and> add_gate c OtherObject tso ps = Inl TypeError"
  by (simp add: add_gate_def)

section \<open>C2: a gate of an unrecognized name\<close>

text \<open>
  C2 (as stated): a gate whose name is not recognized makes \<open>run\<close> raise
  \<open>UnsupportedGateError\<close>. The code has no such branch: on the one-qubit circuit with
  the single gate \<open>FOO\<close> the run returns the ground state.
\<close>

theorem unrecognized_gate_no_error_counterexample:
  "build_and_run lcg foo_circuit None None 1024 0 = (Inr (Statevector [1, 0]), 0)"
  by (simp add: build_and_run_def init_foo run_def gates_foo gate_step_def Gate_init_def)

text \<open>
  C2 (amended): a gate whose name is none of H, X, RX, RY, RZ, CNOT, SWAP, M, Measure is
  skipped. \<open>run\<close> raises nothing for it and leaves the amplitudes as they are; without a
  noise hook the run is the run of the circuit with that gate deleted; with a noise hook
  the hook is still called for the gate.
\<close>

theorem unrecognized_gate_is_skipped:
  assumes "name gate \<notin> {''H'', ''X'', ''RX'', ''RY'', ''RZ'', ''CNOT'', ''SWAP'', ''M'', ''Measure''}"
  shows "gate_step R n shots gate st g = Continue st
     \<and> run_gates R None n shots (pre @ gate # post) st g = run_gates R None n shots (pre @ post) st g
     \<and> run_gates R (Some h) n shots (gate # post) st g =
         (case h st gate g of
            (written, Inl e, g') \<Rightarrow>
              if is_Exception e then run_gates R (Some h) n shots post written g'
              else (Inl e, g')
          | (written, Inr st', g') \<Rightarrow> run_gates R (Some h) n shots post st' g')"
proof -
  have step: "\<And>st g. gate_step R n shots gate st g = Continue st"
    using assms by (rule gate_step_unrecognized)
  have "run_gates R None n shots (pre @ gate # post) st g = run_gates R None n shots (pre @ post) st g"
  proof (induction pre arbitrary: st g)
    case Nil
    show ?case by (simp add: step)
  next
    case (Cons a pre)
    show ?case by (simp add: Cons.IH split: step.splits)
  qed
  then show ?thesis by (simp add: step)
qed

theorem unrecognized_gate_is_skipped_witness:
  "name (Gate_init ''FOO'' [0] None)
     \<notin> {''H'', ''X'', ''RX'', ''RY'', ''RZ'', ''CNOT'', ''SWAP'', ''M'', ''Measure''}
   \<and> gate_step lcg 1 1024 (Gate_init ''FOO'' [0] None) [1, 0] 0 = Continue [1, 0]
   \<and> run_gates lcg None 1 1024 [Gate_init ''X'' [0] None, Gate_init ''FOO'' [0] None] [1, 0] 0
       = (Inr (Statevector [0, 1]), 0)"
proof -
  have h: "name (Gate_init ''FOO'' [0] None)
     \<notin> {''H'', ''X'', ''RX'', ''RY'', ''RZ'', ''CNOT'', ''SWAP'', ''M'', ''Measure''}"
    by (simp add: Gate_init_def)
  have "run_gates lcg None 1 1024 [Gate_init ''X'' [0] None] [1, 0] 0 = (Inr (Statevector [0, 1]), 0)"
    by (simp add: gate_step_x_1)
  then show ?thesis
    using h unrecognized_gate_is_skipped
      [OF h, of lcg 1 1024 "[1, 0]" 0 "[Gate_init ''X'' [0] None]" "[]"]
    by simp
qed

section \<open>C7: a noise hook that raises\<close>

lemma gates_x: "gates x_circuit = [Gate_init ''X'' [0] None]"
  by (simp add: x_circuit_def)

lemma init_x_zero_and_raise:
  "StatevectorSimulator_init R x_circuit (Some zero_and_raise) None g =
     (Inr \<lparr>circuit = x_circuit, sim_num_qubits = 1, sim_state = [1, 0],
           noise_hook = Some zero_and_raise\<rparr>, g)"
  by (simp add: StatevectorSimulator_init_def x_circuit_def ground_state_1)

text \<open>
  C7 (as stated): for every noise hook, when the hook raises the working state is exactly
  the pre-hook state and the run goes on. The hook is handed the working array itself and
  \<open>except Exception: pass\<close> restores nothing: after \<open>X(0)\<close> on one qubit the pre-hook
  state is \<open>[0, 1]\<close>, the hook \<open>zero_and_raise\<close> writes zeros into the array and raises
  \<open>ValueError\<close>, and \<open>run\<close> returns \<open>[0, 0]\<close>.
\<close>

theorem noise_hook_writes_then_raises_counterexample:
  "gate_step lcg (Suc 0) 1024 (Gate_init ''X'' [0] None) [1, 0] 0 = Continue [0, 1]
   \<and> zero_and_raise [0, 1] (Gate_init ''X'' [0] None) (0::nat) = ([0, 0], Inl ValueError, 0)
   \<and> build_and_run lcg x_circuit (Some zero_and_raise) None 1024 0
       = (Inr (Statevector [0, 0]), 0)
   \<and> [0, 0] \<noteq> [0, 1 :: complex]"
  by (simp add: gate_step_x_1 zero_and_raise_def build_and_run_def init_x_zero_and_raise run_def
      gates_x is_Exception_def)

text \<open>
  C7 (amended): for every noise hook, when the hook raises an exception that derives from
  \<open>Exception\<close> after a gate has been applied, the exception is caught and the run goes on
  with the remaining gates, from the array that was handed to the hook with whatever the
  hook wrote into it: exactly the pre-hook state when the hook wrote nothing. An exception
  that does not derive from \<open>Exception\<close> (\<open>KeyboardInterrupt\<close>, \<open>SystemExit\<close>) is not
  caught and ends the run.
\<close>

theorem noise_hook_exception_keeps_array:
  assumes "gate_step R n shots gate st g = Continue st'"
    and "h st' gate g = (written, Inl e, g')"
  shows "(is_Exception e \<longrightarrow>
            run_gates R (Some h) n shots (gate # rest) st g
              = run_gates R (Some h) n shots rest written g')
       \<and> (is_Exception e \<and> written = st' \<longrightarrow>
            run_gates R (Some h) n shots (gate # rest) st g
              = run_gates R (Some h) n shots rest st' g')
       \<and> (\<not> is_Exception e \<longrightarrow>
            run_gates R (Some h) n shots (gate # rest) st g = (Inl e, g'))"
  using assms by simp

theorem noise_hook_exception_keeps_array_witness:
  "gate_step lcg (Suc 0) 1024 (Gate_init ''X'' [0] None) [1, 0] 0 = Continue [0, 1]
   \<and> (\<lambda>st gate g. (st, Inl ValueError, g)) [0, 1] (Gate_init ''X'' [0] None) (0::nat)
       = ([0, 1], Inl ValueError, 0)
   \<and> is_Exception ValueError
   \<and> run_gates lcg (Some (\<lambda>st gate g. (st, Inl ValueError, g))) (Suc 0) 1024
        [Gate_init ''X'' [0] None, Gate_init ''FOO'' [0] None] [1, 0] 0
       = (Inr (Statevector [0, 1]), 0)
   \<and> run_gates lcg (Some (\<lambda>st gate g. (st, Inl KeyboardInterrupt, g))) (Suc 0) 1024
        [Gate_init ''X'' [0] None, Gate_init ''FOO'' [0] None] [1, 0] 0
       = (Inl KeyboardInterrupt, 0)"
proof -
  have a: "gate_step lcg (Suc 0) 1024 (Gate_init ''X'' [0] None) [1, 0] 0 = Continue [0, 1]"
    by (rule gate_step_x_1)
  have b: "(\<lambda>st gate g. (st, Inl ValueError, g)) [0, 1] (Gate_init ''X'' [0] None) (0::nat)
             = ([0, 1], Inl ValueError, 0)"
    by simp
  have b': "(\<lambda>st gate g. (st, Inl KeyboardInterrupt, g)) [0, 1] (Gate_init ''X'' [0] None) (0::nat)
             = ([0, 1], Inl KeyboardInterrupt, 0)"
    by simp
  have c: "run_gates lcg (Some (\<lambda>st gate g. (st, Inl ValueError, g))) (Suc 0) 1024
             [Gate_init ''FOO'' [0] None] [0, 1] 0 = (Inr (Statevector [0, 1]), 0)"
    by (simp add: gate_step_def Gate_init_def is_Exception_def)
  have e: "is_Exception ValueError" "\<not> is_Exception KeyboardInterrupt"
    by (simp_all add: is_Exception_def)
  show ?thesis
    using a c e
      noise_hook_exception_keeps_array
        [where h = "\<lambda>st gate g. (st, Inl ValueError, g)" and e = ValueError and g' = 0
           and written = "[0, 1]" and rest = "[Gate_init ''FOO'' [0] None]", OF a b]
      noise_hook_exception_keeps_array
        [where h = "\<lambda>st gate g. (st, Inl KeyboardInterrupt, g)" and e = KeyboardInterrupt
           and g' = 0 and written = "[0, 1]" and rest = "[Gate_init ''FOO'' [0] None]", OF a b']
    by (simp del: run_gates.simps)
qed

text \<open>
  A hook that always raises an \<open>Exception\<close>, writes nothing and draws nothing from the
  generator leaves every run as it is without a hook.
\<close>

lemma always_raising_hook_is_no_hook:
  assumes "\<And>st gate g. h st gate g = (st, Inl (e st gate), g)"
    and "\<And>st gate. is_Exception (e st gate)"
  shows "run_gates R (Some h) n shots gs st g = run_gates R None n shots gs st g"
  by (induction gs arbitrary: st g) (simp_all add: assms split: step.splits)

section \<open>C5: \<open>X(0)\<close> then \<open>CNOT(0, 1)\<close> on two qubits\<close>

text \<open>
  C5: on two qubits from \<open>|00>\<close>, \<open>X\<close> on qubit 0 and then \<open>CNOT\<close> with control 0 and
  target 1 should leave amplitude 1 at index 3. The code returns amplitude 1 at index 2:
  \<open>_apply_single_qubit_unitary\<close> addresses qubit \<open>t\<close> as axis \<open>t\<close> of the reshaped
  array, which is bit \<open>n - 1 - t\<close> of the index, while \<open>_apply_cnot\<close> tests bit
  \<open>control\<close> of the index, so the control qubit that \<open>X\<close> has set is not the one
  \<open>CNOT\<close> reads.
\<close>

theorem x_then_cnot_amplitudes:
  "build_and_run R x_cnot_circuit None None shots g = (Inr (Statevector [0, 0, 1, 0]), g)"
  by (simp add: build_and_run_def init_x_cnot run_def gates_x_cnot Gate_init_def
      gate_step_def on_target_def on_two_targets_def x_on_ground_2 cnot_on_index_2)

section \<open>C9: the seed and the global generator\<close>

text \<open>
  C9 (as stated): two simulators built with the same seed over the same circuit return
  identical count maps, the generator being local to each instance. The constructor calls
  \<open>np.random.seed\<close>, which reseeds the one global generator, and \<open>run\<close> draws from it:
  built one after the other and then run one after the other, the second simulator
  continues the stream where the first left it. With the generator \<open>lcg\<close>, seed 0, the
  circuit \<open>[H(0), M(0)]\<close> and 3 shots the two count maps differ.
\<close>

theorem same_seed_two_simulators_counterexample:
  "two_simulators_same_seed lcg h_measure_circuit 0 3 0 =
     Some (Inr (Counts [''0'' \<mapsto> 3]), Inr (Counts [''1'' \<mapsto> 3]))
   \<and> Counts [''0'' \<mapsto> 3] \<noteq> Counts [''1'' \<mapsto> 3]"
proof -
  have "[''0'' \<mapsto> 3::nat] ''0'' \<noteq> [''1'' \<mapsto> 3::nat] ''0''"
    by simp
  then have "[''0'' \<mapsto> 3::nat] \<noteq> [''1'' \<mapsto> 3::nat]"
    by metis
  moreover have "two_simulators_same_seed lcg h_measure_circuit 0 3 0 =
     Some (Inr (Counts [''0'' \<mapsto> 3]), Inr (Counts [''1'' \<mapsto> 3]))"
    by (simp add: two_simulators_same_seed_def init_h_measure run_def gates_h_measure
        h_measure_from_0 h_measure_from_5 del: run_gates.simps)
  ultimately show ?thesis by simp
qed

text \<open>
  C9 (amended): a simulator that is built with a seed and run before anything else draws
  from the global generator returns a result fixed by the seed, the circuit, the noise
  hook and the number of shots, whatever the state of the generator was before. (The
  generator itself is shared by every simulator and noise channel of the process.)
\<close>

theorem seeded_build_and_run_deterministic:
  "fst (build_and_run R circ hook (Some seed) shots g1) =
   fst (build_and_run R circ hook (Some seed) shots g2)"
  by (simp add: build_and_run_def StatevectorSimulator_init_def Let_def split: sum.splits)

section \<open>C6: \<open>SWAP\<close> twice\<close>

lemma shift_and_one: "drop_bit a (i::nat) AND 1 = (if bit i a then 1 else 0)"
  by (simp add: and_one_eq mod_2_eq_odd bit_iff_odd_drop_bit)

lemma bits_differ:
  "(drop_bit a (i::nat) mod 2 = drop_bit b i mod 2) \<longleftrightarrow> (bit i a \<longleftrightarrow> bit i b)"
  by (simp add: mod_2_eq_odd bit_iff_odd_drop_bit)

lemma fold_update_upt:
  "m \<le> length new \<Longrightarrow>
   fold (\<lambda>i nw. nw[i := f i]) [0..<m] new = map f [0..<m] @ drop m new"
proof (induction m)
  case 0
  then show ?case by simp
next
  case (Suc m)
  then have "fold (\<lambda>i nw. nw[i := f i]) [0..<Suc m] new = (map f [0..<m] @ drop m new)[m := f m]"
    by simp
  also have "\<dots> = map f [0..<m] @ (drop m new)[0 := f m]"
    by (simp add: list_update_append)
  also have "(drop m new)[0 := f m] = f m # drop (Suc m) new"
    using Suc.prems by (cases "drop m new") (auto simp add: drop_Suc drop_tl)
  finally show ?case by simp
qed

lemma fold_update_all:
  "length new = N \<Longrightarrow> fold (\<lambda>i nw. nw[i := f i]) [0..<N] new = map f [0..<N]"
  using fold_update_upt [of N new f] by simp

lemma swap_loop_step:
  assumes "0 \<le> a" "0 \<le> b" "swap_index (nat a) (nat b) i < length st"
  shows "swap_loop st a b (i # rest) new =
           swap_loop st a b rest (new[i := st ! swap_index (nat a) (nat b) i])"
proof (cases "bit i (nat a) = bit i (nat b)")
  case True
  then show ?thesis
    using assms by (simp add: swap_index_def bits_differ Let_def)
next
  case False
  then show ?thesis
    using assms by (simp add: swap_index_def bits_differ Let_def)
qed

lemma swap_loop_fold:
  assumes "0 \<le> a" "0 \<le> b" "\<forall>i\<in>set ixs. swap_index (nat a) (nat b) i < length st"
  shows "swap_loop st a b ixs new =
           Inr (fold (\<lambda>i nw. nw[i := st ! swap_index (nat a) (nat b) i]) ixs new)"
  using assms
proof (induction ixs arbitrary: new)
  case Nil
  show ?case by simp
next
  case (Cons i ixs)
  then show ?case by (simp add: swap_loop_step del: swap_loop.simps)
qed

lemma xor_less_exp: "(x::nat) < 2 ^ n \<Longrightarrow> y < 2 ^ n \<Longrightarrow> x XOR y < 2 ^ n"
proof -
  assume a: "x < 2 ^ n" "y < 2 ^ n"
  then have "take_bit n (x XOR y) = x XOR y"
    by (simp add: take_bit_xor take_bit_nat_eq_self)
  then show ?thesis
    by (metis take_bit_nat_less_exp)
qed

lemma or_less_exp: "(x::nat) < 2 ^ n \<Longrightarrow> y < 2 ^ n \<Longrightarrow> x OR y < 2 ^ n"
proof -
  assume a: "x < 2 ^ n" "y < 2 ^ n"
  then have "take_bit n (x OR y) = x OR y"
    by (simp add: take_bit_or take_bit_nat_eq_self)
  then show ?thesis
    by (metis take_bit_nat_less_exp)
qed

lemma swap_index_less: "a < n \<Longrightarrow> b < n \<Longrightarrow> i < 2 ^ n \<Longrightarrow> swap_index a b i < 2 ^ n"
  by (simp add: swap_index_def xor_less_exp or_less_exp push_bit_eq_mult)

lemma swap_index_involution: "swap_index a b (swap_index a b i) = i"
  by (auto simp add: swap_index_def bit_xor_iff bit_or_iff bit_exp_iff bit_eq_iff)

lemma apply_swap_eq:
  assumes "length st = 2 ^ n" "0 \<le> a" "a < int n" "0 \<le> b" "b < int n"
  shows "apply_swap st a b = Inr (map (\<lambda>i. st ! swap_index (nat a) (nat b) i) [0..<2 ^ n])"
proof -
  have "\<forall>i\<in>set [0..<length st]. swap_index (nat a) (nat b) i < length st"
    using assms by (simp add: swap_index_less)
  then show ?thesis
    using assms by (simp add: apply_swap_def swap_loop_fold fold_update_all)
qed

text \<open>
  C6: for an amplitude vector of \<open>2^n\<close> entries and qubit indices \<open>a\<close>, \<open>b\<close> below
  \<open>n\<close> (distinct or not), \<open>_apply_swap\<close> returns a vector, and applying it again to
  that vector returns the original one exactly.
\<close>

theorem swap_twice_is_identity:
  assumes "length st = 2 ^ n" "0 \<le> a" "a < int n" "0 \<le> b" "b < int n"
  shows "\<exists>st'. apply_swap st a b = Inr st' \<and> apply_swap st' a b = Inr st"
proof -
  let ?s = "swap_index (nat a) (nat b)"
  let ?st' = "map (\<lambda>i. st ! ?s i) [0..<2 ^ n]"
  have 1: "apply_swap st a b = Inr ?st'"
    using assms by (rule apply_swap_eq)
  have "apply_swap ?st' a b = Inr (map (\<lambda>i. ?st' ! ?s i) [0..<2 ^ n])"
    using assms by (intro apply_swap_eq) simp_all
  also have "map (\<lambda>i. ?st' ! ?s i) [0..<2 ^ n] = st"
    using assms by (auto simp add: list_eq_iff_nth_eq swap_index_less swap_index_involution)
  finally show ?thesis using 1 by simp
qed

theorem swap_twice_is_identity_witness:
  "length [1, 2, 3, 4 :: complex] = 2 ^ 2 \<and> (0::int) \<le> 0 \<and> (0::int) < int 2 \<and> (0::int) \<le> 1 \<and> (1::int) < int 2
   \<and> (\<exists>st'. apply_swap [1, 2, 3, 4] 0 1 = Inr st' \<and> apply_swap st' 0 1 = Inr [1, 2, 3, 4])
   \<and> apply_swap [1, 2, 3, 4] 0 1 = Inr [1, 3, 2, 4]"
proof -
  have e: "apply_swap [1, 2, 3, 4] 0 1 = Inr [1, 3, 2, 4]"
    by code_simp
  show ?thesis
    using e swap_twice_is_identity [of "[1, 2, 3, 4]" 2 0 1] by simp
qed

section \<open>C8: \<open>bit_flip\<close> with probability 1\<close>

lemma flip_index_less: "t < n \<Longrightarrow> i < 2 ^ n \<Longrightarrow> i XOR (2::nat) ^ t < 2 ^ n"
  by (simp add: xor_less_exp)

lemma flip_index_involution: "(i XOR (2::nat) ^ t) XOR 2 ^ t = i"
  by (simp add: xor.assoc)

lemma flip_index_neq: "i XOR (2::nat) ^ t \<noteq> i"
proof
  assume "i XOR (2::nat) ^ t = i"
  then have "bit (i XOR (2::nat) ^ t) t = bit i t" by simp
  then show False by (simp add: bit_xor_iff bit_exp_iff)
qed

lemma bit_flip_loop_certain:
  assumes "\<And>g. fst (np_rand R g) < 1" "0 \<le> t"
    and "\<forall>i\<in>set ixs. i XOR 2 ^ nat t < length new"
  shows "fst (bit_flip_loop R 1 t ixs new g) =
           Inr (fold (\<lambda>i nw. nw[i := nw ! (i XOR 2 ^ nat t), i XOR 2 ^ nat t := nw ! i]) ixs new)"
  using assms(3)
proof (induction ixs arbitrary: new g)
  case Nil
  show ?case by simp
next
  case (Cons i ixs)
  obtain r g' where rg: "np_rand R g = (r, g')"
    by (cases "np_rand R g")
  then have "r < 1"
    using assms(1) [of g] by simp
  moreover have "\<forall>k\<in>set ixs. k XOR 2 ^ nat t
       < length (new[i := new ! (i XOR 2 ^ nat t), i XOR 2 ^ nat t := new ! i])"
    using Cons.prems by simp
  ultimately show ?case
    using Cons.prems Cons.IH assms(2) rg by (simp add: Let_def)
qed

lemma double_swap_fold:
  fixes st :: "'a list"
  assumes inv: "\<And>k. f (f k) = k" and neq: "\<And>k. f k \<noteq> k"
    and less: "\<And>k. k < N \<Longrightarrow> f k < N" and len: "length st = N"
  shows "m \<le> N \<Longrightarrow>
    fold (\<lambda>i nw. nw[i := nw ! f i, f i := nw ! i]) [0..<m] st =
      map (\<lambda>k. if (k < m) \<noteq> (f k < m) then st ! f k else st ! k) [0..<N]"
proof (induction m)
  case 0
  then show ?case by (simp add: len [symmetric] map_nth)
next
  case (Suc m)
  let ?g = "\<lambda>m k. if (k < m) \<noteq> (f k < m) then st ! f k else st ! k"
  let ?new = "map (?g m) [0..<N]"
  have m: "m < N" "f m < N" using Suc.prems less by auto
  have step: "fold (\<lambda>i nw. nw[i := nw ! f i, f i := nw ! i]) [0..<Suc m] st =
      ?new[m := ?new ! f m, f m := ?new ! m]"
    using Suc by simp
  have "?new[m := ?new ! f m, f m := ?new ! m] = map (?g (Suc m)) [0..<N]"
  proof (rule nth_equalityI)
    show "length (?new[m := ?new ! f m, f m := ?new ! m]) = length (map (?g (Suc m)) [0..<N])"
      by simp
  next
    fix k assume "k < length (?new[m := ?new ! f m, f m := ?new ! m])"
    then have k: "k < N" by simp
    consider "k = f m" | "k = m" | "k \<noteq> f m" "k \<noteq> m" by blast
    then show "?new[m := ?new ! f m, f m := ?new ! m] ! k = map (?g (Suc m)) [0..<N] ! k"
    proof cases
      case 1
      then show ?thesis
        using m k inv [of m] neq [of m] by (auto simp add: less_Suc_eq)
    next
      case 2
      then show ?thesis
        using m k inv [of m] neq [of m] by (auto simp add: less_Suc_eq)
    next
      case 3
      then have "f k \<noteq> m" using inv [of k] by auto
      then show ?thesis
        using 3 m k less [of k] by (auto simp add: less_Suc_eq)
    qed
  qed
  then show ?case using step by simp
qed

text \<open>
  C8: \<open>bit_flip(state, 1, target)\<close> should be the state with \<open>X\<close> applied to the
  target qubit (\<open>depolarizing\<close> calls it so, under the comment "Randomly apply X, Y, or
  Z"). In the code the loop visits every index: it exchanges the pair \<open>i\<close>,
  \<open>i ^ (1 << target)\<close> once at \<open>i\<close> and once more at the partner, in the array being
  built. With every draw below \<open>p = 1\<close> (numpy's \<open>rand\<close> draws from \<open>[0, 1)\<close>) each
  pair is exchanged twice and the state comes back unchanged.
\<close>

theorem bit_flip_certain_is_identity:
  assumes "\<And>g. fst (np_rand R g) < 1" "length st = 2 ^ n" "0 \<le> t" "t < int n"
  shows "fst (bit_flip R st 1 t g) = Inr st"
proof -
  let ?f = "\<lambda>i::nat. i XOR 2 ^ nat t"
  have less: "\<And>k. k < 2 ^ n \<Longrightarrow> ?f k < 2 ^ n"
    using assms(3,4) by (simp add: flip_index_less)
  have "fst (bit_flip R st 1 t g) =
      Inr (fold (\<lambda>i nw. nw[i := nw ! ?f i, ?f i := nw ! i]) [0..<2 ^ n] st)"
    using assms less by (simp add: bit_flip_def bit_flip_loop_certain)
  also have "fold (\<lambda>i nw. nw[i := nw ! ?f i, ?f i := nw ! i]) [0..<2 ^ n] st =
      map (\<lambda>k. if (k < 2 ^ n) \<noteq> (?f k < 2 ^ n) then st ! ?f k else st ! k) [0..<2 ^ n]"
    using less assms(2)
    by (intro double_swap_fold) (simp_all add: flip_index_involution flip_index_neq)
  also have "\<dots> = st"
    using less assms(2) by (auto simp add: list_eq_iff_nth_eq)
  finally show ?thesis .
qed

theorem bit_flip_certain_is_identity_witness:
  "(\<forall>g. fst (np_rand lcg g) < 1) \<and> length [1, 0 :: complex] = 2 ^ 1 \<and> (0::int) \<le> 0 \<and> (0::int) < int 1
   \<and> fst (bit_flip lcg [1, 0] 1 0 0) = Inr [1, 0]
   \<and> apply_single_qubit_unitary 1 [1, 0] X_matrix 0 = Inr [0, 1]"
proof -
  have h: "\<And>g. fst (np_rand lcg g) < 1"
    by (simp add: lcg_def lcg_rand_def)
  have x: "apply_single_qubit_unitary 1 [1, 0] X_matrix 0 = Inr [0, 1]"
    using x_on_ground_1 by simp
  show ?thesis
    using h x bit_flip_certain_is_identity [of lcg "[1, 0]" 1 0 0, OF h] by simp
qed

section \<open>The tensor route of \<open>_apply_single_qubit_unitary\<close>\<close>

subsection \<open>ravel and unravel\<close>

lemma np_ravel_snoc: "np_ravel (c @ [b]) = 2 * np_ravel c + b"
  by (simp add: np_ravel_def)

lemma np_unravel_Suc: "np_unravel (Suc n) i = np_unravel n (i div 2) @ [i mod 2]"
proof -
  have "\<And>k. k < n \<Longrightarrow> i div 2 ^ (n - k) = i div 2 div 2 ^ (n - 1 - k)"
  proof -
    fix k assume "k < n"
    then have "n - k = Suc (n - 1 - k)" by simp
    then show "i div 2 ^ (n - k) = i div 2 div 2 ^ (n - 1 - k)"
      by (simp add: div_mult2_eq)
  qed
  then show ?thesis
    by (simp add: np_unravel_def)
qed

lemma length_np_unravel [simp]: "length (np_unravel n i) = n"
  by (simp add: np_unravel_def)

lemma np_unravel_bit: "k < n \<Longrightarrow> np_unravel n i ! k < 2"
  by (simp add: np_unravel_def)

lemma np_ravel_unravel: "np_ravel (np_unravel n i) = i mod 2 ^ n"
proof (induction n arbitrary: i)
  case 0
  show ?case by (simp add: np_unravel_def np_ravel_def)
next
  case (Suc n)
  have "np_ravel (np_unravel (Suc n) i) = 2 * (i div 2 mod 2 ^ n) + i mod 2"
    by (simp add: np_unravel_Suc np_ravel_snoc Suc.IH)
  also have "\<dots> = i mod 2 ^ Suc n"
    by (simp add: mod_mult2_eq)
  finally show ?case .
qed

lemma np_ravel_less: "\<forall>b\<in>set c. b < 2 \<Longrightarrow> np_ravel c < 2 ^ length c"
proof (induction c rule: rev_induct)
  case Nil
  show ?case by (simp add: np_ravel_def)
next
  case (snoc b c)
  then have "np_ravel c < 2 ^ length c" "b < 2" by simp_all
  then show ?case by (simp add: np_ravel_snoc)
qed

lemma np_unravel_ravel: "\<forall>b\<in>set c. b < 2 \<Longrightarrow> np_unravel (length c) (np_ravel c) = c"
proof (induction c rule: rev_induct)
  case Nil
  show ?case by (simp add: np_unravel_def)
next
  case (snoc b c)
  then have "b < 2" and IH: "np_unravel (length c) (np_ravel c) = c" by simp_all
  then show ?case by (simp add: np_unravel_Suc np_ravel_snoc)
qed

subsection \<open>argsort of a permutation\<close>

lemma is_perm_mset: "is_perm n p \<Longrightarrow> mset p = mset [0..<n]"
  by (metis is_perm_def atLeast_upt distinct_upt set_eq_iff_mset_eq_distinct)

lemma np_argsort_mset: "mset (np_argsort p) = mset [0..<length p]"
  by (simp add: np_argsort_def)

lemma np_argsort_perm: "is_perm (length p) (np_argsort p)"
proof -
  have "mset (np_argsort p) = mset [0..<length p]" by (rule np_argsort_mset)
  then show ?thesis
    unfolding is_perm_def
    by (metis atLeast_upt distinct_upt length_upt mset_eq_imp_distinct_iff mset_eq_length
        mset_eq_setD minus_nat.diff_0)
qed

lemma np_argsort_keys:
  assumes "is_perm n p"
  shows "map (\<lambda>i. p ! i) (np_argsort p) = [0..<n]"
proof -
  have n: "length p = n" using assms by (simp add: is_perm_def)
  have "mset (map (\<lambda>i. p ! i) (np_argsort p)) = image_mset (\<lambda>i. p ! i) (mset [0..<n])"
    by (simp add: np_argsort_def n)
  also have "\<dots> = mset (map (\<lambda>i. p ! i) [0..<length p])"
    by (simp add: n)
  also have "\<dots> = mset [0..<n]"
    using assms by (simp add: map_nth is_perm_mset)
  finally have m: "mset (map (\<lambda>i. p ! i) (np_argsort p)) = mset [0..<n]" .
  have s: "sorted (map (\<lambda>i. p ! i) (np_argsort p))"
    by (simp add: np_argsort_def)
  have "sort [0..<n] = map (\<lambda>i. p ! i) (np_argsort p)"
    using m s by (intro properties_for_sort) simp_all
  then show ?thesis by (simp add: sorted_sort_id)
qed

lemma np_argsort_inverse:
  assumes "is_perm n p" "k < n"
  shows "p ! (np_argsort p ! k) = k"
proof -
  have len: "length (np_argsort p) = n"
    using assms np_argsort_perm [of p] by (simp add: is_perm_def)
  have "map (\<lambda>i. p ! i) (np_argsort p) ! k = [0..<n] ! k"
    using assms by (simp add: np_argsort_keys)
  then show ?thesis using assms len by simp
qed

lemma is_perm_nth_less: "is_perm n p \<Longrightarrow> k < n \<Longrightarrow> p ! k < n"
  unfolding is_perm_def by (metis lessThan_iff nth_mem)

lemma np_argsort_argsort:
  assumes "is_perm n p" "k < n"
  shows "np_argsort (np_argsort p) ! k = p ! k"
proof -
  let ?r = "np_argsort p"
  have n: "length p = n" using assms by (simp add: is_perm_def)
  have r: "is_perm n ?r" using np_argsort_perm [of p] n by simp
  then have r2: "is_perm n (np_argsort ?r)"
    using np_argsort_perm [of ?r] by (simp add: is_perm_def)
  have "np_argsort ?r ! k < n" using r2 assms(2) by (rule is_perm_nth_less)
  then have "?r ! (np_argsort ?r ! k) < n" using r by (simp add: is_perm_nth_less)
  have a: "?r ! (np_argsort ?r ! k) = k" using r assms(2) by (rule np_argsort_inverse)
  have "p ! (?r ! (np_argsort ?r ! k)) = np_argsort ?r ! k"
    using assms(1) \<open>np_argsort ?r ! k < n\<close> by (rule np_argsort_inverse)
  then show ?thesis using a by simp
qed

subsection \<open>Transposition as an index map\<close>

lemma transpose_index_bits:
  assumes "is_perm n q"
  shows "\<forall>b\<in>set (map (\<lambda>j. np_unravel n i ! j) q). b < 2"
  using assms by (auto simp add: is_perm_def np_unravel_bit)

lemma transpose_index_less:
  assumes "is_perm n q"
  shows "transpose_index n q i < 2 ^ n"
proof -
  have "np_ravel (map (\<lambda>j. np_unravel n i ! j) q) < 2 ^ length (map (\<lambda>j. np_unravel n i ! j) q)"
    using transpose_index_bits [OF assms] by (rule np_ravel_less)
  then show ?thesis using assms by (simp add: transpose_index_def is_perm_def)
qed

lemma unravel_transpose_index:
  assumes "is_perm n q"
  shows "np_unravel n (transpose_index n q i) = map (\<lambda>j. np_unravel n i ! j) q"
proof -
  have "np_unravel (length (map (\<lambda>j. np_unravel n i ! j) q))
          (np_ravel (map (\<lambda>j. np_unravel n i ! j) q)) = map (\<lambda>j. np_unravel n i ! j) q"
    using transpose_index_bits [OF assms] by (rule np_unravel_ravel)
  then show ?thesis using assms by (simp add: transpose_index_def is_perm_def)
qed

lemma transpose_index_inverse:
  assumes q: "is_perm n q" and q': "is_perm n q'"
    and inv: "\<And>k. k < n \<Longrightarrow> q ! (q' ! k) = k" and i: "i < 2 ^ n"
  shows "transpose_index n q' (transpose_index n q i) = i"
proof -
  let ?c = "np_unravel n i"
  have len: "length q = n" "length q' = n" using q q' by (simp_all add: is_perm_def)
  have "map (\<lambda>j. map (\<lambda>j. ?c ! j) q ! j) q' = ?c"
  proof (rule nth_equalityI)
    show "length (map (\<lambda>j. map (\<lambda>j. ?c ! j) q ! j) q') = length ?c"
      by (simp add: len)
  next
    fix k assume "k < length (map (\<lambda>j. map (\<lambda>j. ?c ! j) q ! j) q')"
    then have k: "k < n" by (simp add: len)
    then have "q' ! k < n" using q' by (simp add: is_perm_nth_less)
    then show "map (\<lambda>j. map (\<lambda>j. ?c ! j) q ! j) q' ! k = ?c ! k"
      using k len inv [OF k] by simp
  qed
  then have "transpose_index n q' (transpose_index n q i) = np_ravel ?c"
    by (simp add: transpose_index_def [of n q'] unravel_transpose_index [OF q])
  then show ?thesis using i by (simp add: np_ravel_unravel)
qed

subsection \<open>The axes of \<open>_apply_single_qubit_unitary\<close>\<close>

lemma normalize_target_axes:
  assumes "0 \<le> t"
  shows "map (normalize_axis n) (target_axes n t) = nat t # filter (\<lambda>i. i \<noteq> nat t) [0..<n]"
proof -
  have "filter (\<lambda>i. i \<noteq> t) (map int [0..<n]) = map int (filter (\<lambda>i. i \<noteq> nat t) [0..<n])"
    using assms by (auto simp add: filter_map o_def intro!: arg_cong [where f = "map int"] filter_cong)
  then show ?thesis
    using assms by (simp add: target_axes_def normalize_axis_def o_def)
qed

lemma target_axes_perm:
  assumes "0 \<le> t" "t < int n"
  shows "is_perm n (map (normalize_axis n) (target_axes n t))"
proof -
  let ?p = "nat t # filter (\<lambda>i. i \<noteq> nat t) [0..<n]"
  have d: "distinct ?p" by simp
  have s: "set ?p = {..<n}" using assms by auto
  have "length ?p = card (set ?p)" using d by (simp only: distinct_card)
  also have "\<dots> = card {..<n}" by (simp only: s)
  finally have "length ?p = n" by simp
  then show ?thesis
    using d s assms by (simp only: normalize_target_axes is_perm_def)
qed

lemma target_axes_valid:
  assumes "0 \<le> t" "t < int n"
  shows "length (target_axes n t) = n"
    and "list_all (\<lambda>x. - int n \<le> x \<and> x < int n) (target_axes n t)"
    and "distinct (map (normalize_axis n) (target_axes n t))"
proof -
  have p: "is_perm n (map (normalize_axis n) (target_axes n t))"
    using assms by (rule target_axes_perm)
  then show "length (target_axes n t) = n" by (simp add: is_perm_def)
  show "distinct (map (normalize_axis n) (target_axes n t))"
    using p by (simp add: is_perm_def)
  show "list_all (\<lambda>x. - int n \<le> x \<and> x < int n) (target_axes n t)"
    using assms by (auto simp add: target_axes_def list_all_iff)
qed

lemma np_transpose_perm:
  assumes "length axes = n" "list_all (\<lambda>x. - int n \<le> x \<and> x < int n) axes"
    and "distinct (map (normalize_axis n) axes)"
  shows "np_transpose n axes a =
    Inr (map (\<lambda>i. a ! transpose_index n (np_argsort (map (normalize_axis n) axes)) i) [0..<2 ^ n])"
  using assms by (simp add: np_transpose_def transpose_index_def)

lemma inverse_axes_valid:
  assumes "is_perm n p"
  shows "length (map int (np_argsort p)) = n"
    and "list_all (\<lambda>x. - int n \<le> x \<and> x < int n) (map int (np_argsort p))"
    and "map (normalize_axis n) (map int (np_argsort p)) = np_argsort p"
    and "distinct (np_argsort p)"
proof -
  have n: "length p = n" using assms by (simp add: is_perm_def)
  have r: "is_perm n (np_argsort p)" using np_argsort_perm [of p] n by simp
  show "length (map int (np_argsort p)) = n" using r by (simp add: is_perm_def)
  show "distinct (np_argsort p)" using r by (simp add: is_perm_def)
  show "list_all (\<lambda>x. - int n \<le> x \<and> x < int n) (map int (np_argsort p))"
    using r by (auto simp add: is_perm_def list_all_iff)
  show "map (normalize_axis n) (map int (np_argsort p)) = np_argsort p"
    by (simp add: normalize_axis_def o_def)
qed

lemma apply_single_qubit_unitary_eq:
  assumes "length st = 2 ^ n" "0 \<le> t" "t < int n"
  shows "apply_single_qubit_unitary n st U t =
    Inr (map (\<lambda>i. matmul U (2 ^ n div 2)
                    (map (\<lambda>i. st ! transpose_index n
                                 (np_argsort (map (normalize_axis n) (target_axes n t))) i)
                       [0..<2 ^ n])
                  ! transpose_index n
                      (np_argsort (np_argsort (map (normalize_axis n) (target_axes n t)))) i)
           [0..<2 ^ n])"
proof -
  let ?p = "map (normalize_axis n) (target_axes n t)"
  have p: "is_perm n ?p" using assms(2,3) by (rule target_axes_perm)
  have 1: "\<And>a. np_transpose n (target_axes n t) a =
      Inr (map (\<lambda>i. a ! transpose_index n (np_argsort ?p) i) [0..<2 ^ n])"
    using target_axes_valid [OF assms(2,3)] by (rule np_transpose_perm)
  have 2: "\<And>a. np_transpose n (map int (np_argsort ?p)) a =
      Inr (map (\<lambda>i. a ! transpose_index n (np_argsort (np_argsort ?p)) i) [0..<2 ^ n])"
    using inverse_axes_valid [OF p]
    by (subst np_transpose_perm) simp_all
  show ?thesis
    using assms(1)
    by (simp add: apply_single_qubit_unitary_def target_axes_def [symmetric] 1 2 Let_def)
qed

section \<open>C10: a rotation gate without parameters\<close>

lemma matmul_identity:
  assumes "length t = 2 * m"
  shows "matmul [[1, 0], [0, 1]] m t = t"
proof (rule nth_equalityI)
  show "length (matmul [[1, 0], [0, 1]] m t) = length t"
    using assms by (simp add: matmul_def)
next
  fix k assume "k < length (matmul [[1, 0], [0, 1]] m t)"
  then have k: "k < 2 * m" by (simp add: matmul_def)
  show "matmul [[1, 0], [0, 1]] m t ! k = t ! k"
  proof (cases "k < m")
    case True
    then show ?thesis by (simp add: matmul_def nth_append)
  next
    case False
    then have "k - m < m" "m + (k - m) = k" using k by simp_all
    then show ?thesis using False by (simp add: matmul_def nth_append)
  qed
qed

lemma rotation_matrices_at_zero:
  "RX_matrix 0 = [[1, 0], [0, 1]]" "RY_matrix 0 = [[1, 0], [0, 1]]" "RZ_matrix 0 = [[1, 0], [0, 1]]"
  by (simp_all add: RX_matrix_def RY_matrix_def RZ_matrix_def)

lemma transpose_round_trip:
  assumes "0 \<le> t" "t < int n" "i < 2 ^ n"
  shows "transpose_index n (np_argsort (map (normalize_axis n) (target_axes n t)))
           (transpose_index n
              (np_argsort (np_argsort (map (normalize_axis n) (target_axes n t)))) i) = i"
proof -
  let ?p = "map (normalize_axis n) (target_axes n t)"
  have p: "is_perm n ?p" using assms(1,2) by (rule target_axes_perm)
  then have n: "length ?p = n" by (simp add: is_perm_def)
  have r: "is_perm n (np_argsort ?p)" using np_argsort_perm [of ?p] n by simp
  then have r2: "is_perm n (np_argsort (np_argsort ?p))"
    using np_argsort_perm [of "np_argsort ?p"] by (simp add: is_perm_def)
  have "\<And>k. k < n \<Longrightarrow> np_argsort (np_argsort ?p) ! (np_argsort ?p ! k) = k"
  proof -
    fix k assume k: "k < n"
    then have "np_argsort ?p ! k < n" using r by (simp add: is_perm_nth_less)
    then have "np_argsort (np_argsort ?p) ! (np_argsort ?p ! k) = ?p ! (np_argsort ?p ! k)"
      using p by (simp add: np_argsort_argsort)
    then show "np_argsort (np_argsort ?p) ! (np_argsort ?p ! k) = k"
      using p k by (simp add: np_argsort_inverse)
  qed
  then show ?thesis
    using r2 r assms(3) by (intro transpose_index_inverse)
qed

lemma apply_identity_matrix:
  assumes "length st = 2 ^ n" "0 \<le> t" "t < int n"
  shows "apply_single_qubit_unitary n st [[1, 0], [0, 1]] t = Inr st"
proof -
  let ?p = "map (normalize_axis n) (target_axes n t)"
  let ?tr = "map (\<lambda>i. st ! transpose_index n (np_argsort ?p) i) [0..<2 ^ n]"
  have "0 < n" using assms(2,3) by simp
  then have "(2::nat) ^ n = 2 * (2 ^ n div 2)"
    by (cases n) simp_all
  then have m: "matmul [[1, 0], [0, 1]] (2 ^ n div 2) ?tr = ?tr"
    by (intro matmul_identity) simp
  have p: "is_perm n ?p" using assms(2,3) by (rule target_axes_perm)
  then have n: "length ?p = n" by (simp add: is_perm_def)
  have r: "is_perm n (np_argsort ?p)" using np_argsort_perm [of ?p] n by simp
  then have r2: "is_perm n (np_argsort (np_argsort ?p))"
    using np_argsort_perm [of "np_argsort ?p"] by (simp add: is_perm_def)
  have "map (\<lambda>i. ?tr ! transpose_index n (np_argsort (np_argsort ?p)) i) [0..<2 ^ n] = st"
  proof (rule nth_equalityI)
    show "length (map (\<lambda>i. ?tr ! transpose_index n (np_argsort (np_argsort ?p)) i) [0..<2 ^ n])
            = length st"
      using assms(1) by simp
  next
    fix k assume "k < length (map (\<lambda>i. ?tr ! transpose_index n (np_argsort (np_argsort ?p)) i) [0..<2 ^ n])"
    then have k: "k < 2 ^ n" by simp
    have "transpose_index n (np_argsort (np_argsort ?p)) k < 2 ^ n"
      using r2 by (rule transpose_index_less)
    then show "map (\<lambda>i. ?tr ! transpose_index n (np_argsort (np_argsort ?p)) i) [0..<2 ^ n] ! k
            = st ! k"
      using k transpose_round_trip [OF assms(2,3) k] by simp
  qed
  then show ?thesis
    using assms by (simp only: apply_single_qubit_unitary_eq m)
qed

text \<open>
  C10: for a gate named \<open>RX\<close>, \<open>RY\<close> or \<open>RZ\<close> with an empty \<open>params\<close> list, \<open>run\<close>
  takes the angle \<open>0.0\<close>; the matrix is then the identity and the gate leaves the
  amplitude vector as it is (for a target that is a qubit of the simulator, on a vector of
  \<open>2^n\<close> entries; otherwise the reshape or the transpose raises).
\<close>

theorem rotation_without_params_is_identity:
  assumes "name gate = ''RX'' \<or> name gate = ''RY'' \<or> name gate = ''RZ''"
    and "params gate = []" and "targets gate = t # ts" and "0 \<le> t" and "t < int n"
    and "length st = 2 ^ n"
  shows "theta_of gate = 0 \<and> gate_step R n shots gate st g = Continue st"
proof -
  have th: "theta_of gate = 0" using assms(2) by (simp add: theta_of_def)
  have "apply_single_qubit_unitary n st [[1, 0], [0, 1]] t = Inr st"
    using assms(6,4,5) by (rule apply_identity_matrix)
  then have "gate_step R n shots gate st g = Continue st"
    using assms(1,3) th by (auto simp add: gate_step_def on_target_def rotation_matrices_at_zero)
  then show ?thesis using th by simp
qed

theorem rotation_without_params_is_identity_witness:
  "(name (Gate_init ''RX'' [0] None) = ''RX'' \<or> name (Gate_init ''RX'' [0] None) = ''RY''
      \<or> name (Gate_init ''RX'' [0] None) = ''RZ'')
   \<and> params (Gate_init ''RX'' [0] None) = [] \<and> targets (Gate_init ''RX'' [0] None) = 0 # []
   \<and> (0::int) \<le> 0 \<and> (0::int) < int 1 \<and> length [1, 0 :: complex] = 2 ^ 1
   \<and> theta_of (Gate_init ''RX'' [0] None) = 0
   \<and> gate_step lcg 1 1024 (Gate_init ''RX'' [0] None) [1, 0] 0 = Continue [1, 0]"
  using rotation_without_params_is_identity
    [of "Gate_init ''RX'' [0] None" 0 "[]" 1 "[1, 0]" lcg 1024 0]
  by (simp add: Gate_init_def)

section \<open>C4: measurement ends the run\<close>

text \<open>
  The labels: \<open>tally\<close> counts the sampled indices under their labels, and for
  \<open>n > 0\<close> the label of an index below \<open>2^n\<close> has \<open>n\<close> characters, the bits of the
  index from the most significant one.
\<close>

lemma tally_lookup:
  "tally n rs counts lbl =
     (if \<exists>r\<in>set rs. format_bin n r = lbl
      then Some ((case counts lbl of None \<Rightarrow> 0 | Some c \<Rightarrow> c)
                 + length (filter (\<lambda>r. format_bin n r = lbl) rs))
      else counts lbl)"
  by (induction rs arbitrary: counts) auto

lemma tally_empty_lookup:
  "tally n rs Map.empty lbl =
     (if \<exists>r\<in>set rs. format_bin n r = lbl
      then Some (length (filter (\<lambda>r. format_bin n r = lbl) rs)) else None)"
  by (simp add: tally_lookup)

lemma bin_digits_small: "r < 2 \<Longrightarrow> bin_digits r = [if r = 0 then CHR ''0'' else CHR ''1'']"
  by (simp add: bin_digits.simps)

lemma bin_digits_large:
  "\<not> r < 2 \<Longrightarrow> bin_digits r = bin_digits (r div 2) @ [if r mod 2 = 0 then CHR ''0'' else CHR ''1'']"
  by (subst bin_digits.simps) simp

lemma length_bin_digits: "0 < n \<Longrightarrow> r < 2 ^ n \<Longrightarrow> length (bin_digits r) \<le> n"
proof (induction n arbitrary: r)
  case 0
  then show ?case by simp
next
  case (Suc n)
  show ?case
  proof (cases "r < 2")
    case True
    then show ?thesis by (simp add: bin_digits_small)
  next
    case False
    then have "0 < n" using Suc.prems(2) by (cases n) simp_all
    moreover have "r div 2 < 2 ^ n" using Suc.prems(2) by simp
    ultimately have "length (bin_digits (r div 2)) \<le> n" by (rule Suc.IH)
    then show ?thesis using False by (simp add: bin_digits_large)
  qed
qed

lemma length_format_bin: "0 < n \<Longrightarrow> r < 2 ^ n \<Longrightarrow> length (format_bin n r) = n"
  using length_bin_digits [of n r] by (simp add: format_bin_def)

lemma format_bin_unravel:
  "0 < n \<Longrightarrow> r < 2 ^ n \<Longrightarrow>
   format_bin n r = map (\<lambda>b. if b = 0 then CHR ''0'' else CHR ''1'') (np_unravel n r)"
proof (induction n arbitrary: r)
  case 0
  then show ?case by simp
next
  case (Suc n)
  let ?d = "\<lambda>b::nat. if b = 0 then CHR ''0'' else CHR ''1''"
  show ?case
  proof (cases "n = 0")
    case True
    then have "r < 2" using Suc.prems(2) by simp
    then show ?thesis
      using True by (simp add: format_bin_def np_unravel_def bin_digits_small)
  next
    case False
    then have n: "0 < n" by simp
    have r2: "r div 2 < 2 ^ n" using Suc.prems(2) by simp
    have IH: "format_bin n (r div 2) = map ?d (np_unravel n (r div 2))"
      using n r2 by (rule Suc.IH)
    have "format_bin (Suc n) r = format_bin n (r div 2) @ [?d (r mod 2)]"
    proof (cases "r < 2")
      case True
      then have "r div 2 = 0" "r mod 2 = r" by simp_all
      moreover have "replicate n CHR ''0'' = replicate (n - 1) CHR ''0'' @ ''0''"
        using n by (cases n) (simp_all add: replicate_append_same)
      ultimately show ?thesis
        using True by (simp add: format_bin_def bin_digits_small)
    next
      case False
      have "length (bin_digits (r div 2)) \<le> n" using n r2 by (rule length_bin_digits)
      then show ?thesis
        using False by (simp add: format_bin_def bin_digits_large Suc_diff_le)
    qed
    then show ?thesis
      by (simp add: IH np_unravel_Suc)
  qed
qed

lemma format_bin_bits:
  assumes "0 < n" "r < 2 ^ n" "k < n"
  shows "format_bin n r ! k = (if bit r (n - 1 - k) then CHR ''1'' else CHR ''0'')"
proof -
  have "np_unravel n r ! k = r div 2 ^ (n - 1 - k) mod 2"
    using assms(3) by (simp add: np_unravel_def)
  then show ?thesis
    using assms by (auto simp add: format_bin_unravel bit_iff_odd)
qed

lemma argsort_two_axes: "np_argsort [0, Suc 0] = [0, Suc 0]"
  by (simp add: np_argsort_def upt_rec numeral_2_eq_2)

lemma transpose_two_axes_index:
  "map (\<lambda>i. np_ravel (map (\<lambda>j. np_unravel 2 i ! j) [0, Suc 0])) [0..<2 ^ 2] = [0, 1, 2, 3]"
  by code_simp

lemma transpose_two_axes: "np_transpose 2 [0, 1] [a, b, c, d] = Inr [a, b, c, d]"
proof -
  have "map (\<lambda>i. [a, b, c, d] ! np_ravel (map (\<lambda>j. np_unravel 2 i ! j) [0, Suc 0])) [0..<2 ^ 2]
      = map (\<lambda>k. [a, b, c, d] ! k)
          (map (\<lambda>i. np_ravel (map (\<lambda>j. np_unravel 2 i ! j) [0, Suc 0])) [0..<2 ^ 2])"
    by (simp only: map_map o_def)
  also have "\<dots> = [a, b, c, d]"
    by (simp only: transpose_two_axes_index) simp
  finally show ?thesis
    by (simp add: np_transpose_def normalize_axis_def argsort_two_axes)
qed

lemma h_on_ground_2:
  "apply_single_qubit_unitary 2 [1, 0, 0, 0] H_matrix 0 =
     Inr [complex_of_real (1 / sqrt 2), 0, complex_of_real (1 / sqrt 2), 0]"
proof -
  have ax: "(0::int) # filter (\<lambda>i. i \<noteq> 0) (map int [0..<2]) = [0, 1]"
    by (simp add: upt_rec numeral_2_eq_2)
  have m: "matmul H_matrix 2 [1, 0, 0, 0] =
      [complex_of_real (1 / sqrt 2), 0, complex_of_real (1 / sqrt 2), 0]"
    by (simp add: matmul_def H_matrix_def upt_rec numeral_2_eq_2)
  have inv: "map int (np_argsort (map (normalize_axis 2) [0, 1])) = [0, 1]"
    by (simp add: normalize_axis_def argsort_two_axes)
  show ?thesis
    unfolding apply_single_qubit_unitary_def ax Let_def
    by (simp only: transpose_two_axes inv) (simp add: m transpose_two_axes)
qed

lemma lcg_choice_4_from_0:
  "lcg_choice (Suc (Suc (Suc (Suc 0)))) 4 [1 / 2, 0, 1 / 2, 0] 0 = (Inr [0, 0, 0, 2], 4)"
proof -
  have "lcg_choice 4 4 [1 / 2, 0, 1 / 2, 0] 0 = (Inr [0, 0, 0, 2], 4)"
    by code_simp
  then show ?thesis by (simp add: numeral_eq_Suc)
qed

lemma format_bin_2_0: "format_bin 2 0 = ''00''"
  by (simp add: format_bin_def bin_digits.simps numeral_2_eq_2)

lemma format_bin_2_2: "format_bin 2 2 = ''10''"
  by (simp add: format_bin_def bin_digits.simps)

lemma h_measure_2q_from_0:
  "run_gates lcg None 2 4 (Gate_init ''H'' [0] None # Gate_init ''M'' [0] None # rest)
     [1, 0, 0, 0] 0 = (Inr (Counts [''00'' \<mapsto> 3, ''10'' \<mapsto> 1]), 4)"
  by (simp add: gate_step_def Gate_init_def on_target_def h_on_ground_2 measure_counts_def
      prob_after_h lcg_def lcg_choice_4_from_0 format_bin_2_0 format_bin_2_2 numeral_3_eq_3)

text \<open>
  C4: at a gate named \<open>M\<close> or \<open>Measure\<close>, \<open>run\<close> takes the probabilities
  \<open>|amplitude|^2\<close>, draws \<open>shots\<close> indices with \<open>np.random.choice\<close> and returns at
  once the map of their tally; the gates after it are never applied, so the result is that
  of the circuit cut after the measurement. The tally maps a label to the number of
  sampled indices with that label and holds no other key, and for \<open>n > 0\<close> qubits the
  label of an index below \<open>2^n\<close> is its binary numeral zero-padded to exactly \<open>n\<close>
  characters: character \<open>k\<close> is bit \<open>n - 1 - k\<close> of the index. The instance: on two
  qubits \<open>[H(0), Measure(0), X(0)]\<close> and \<open>[H(0), Measure(0)]\<close> return the same counts,
  under the labels \<open>00\<close> and \<open>10\<close>.
\<close>

theorem measurement_returns_labelled_counts:
  assumes "name m = ''M'' \<or> name m = ''Measure''"
  shows "run_gates R hook n shots (m # post) st g =
           (case np_choice R (length st) shots (map (\<lambda>z. (cmod z)\<^sup>2) st) g of
              (Inl e, g') \<Rightarrow> (Inl e, g')
            | (Inr results, g') \<Rightarrow> (Inr (Counts (tally n results Map.empty)), g'))
     \<and> run_gates R hook n shots (pre @ m # post) st g = run_gates R hook n shots (pre @ [m]) st g
     \<and> tally n results Map.empty lbl =
         (if \<exists>r\<in>set results. format_bin n r = lbl
          then Some (length (filter (\<lambda>r. format_bin n r = lbl) results)) else None)
     \<and> (0 < n \<and> r < 2 ^ n \<longrightarrow>
          length (format_bin n r) = n
          \<and> (\<forall>k<n. format_bin n r ! k = (if bit r (n - 1 - k) then CHR ''1'' else CHR ''0'')))"
proof -
  have step: "\<And>st g. gate_step R n shots m st g = Return (measure_counts R n shots st g)"
    using assms by (rule gate_step_measure)
  have cut: "run_gates R hook n shots (pre @ m # post) st g
      = run_gates R hook n shots (pre @ [m]) st g"
  proof (induction pre arbitrary: st g)
    case Nil
    show ?case by (simp add: step)
  next
    case (Cons a pre)
    show ?case using Cons.IH by (auto split: step.splits option.splits prod.splits sum.splits)
  qed
  have head: "run_gates R hook n shots (m # post) st g =
           (case np_choice R (length st) shots (map (\<lambda>z. (cmod z)\<^sup>2) st) g of
              (Inl e, g') \<Rightarrow> (Inl e, g')
            | (Inr results, g') \<Rightarrow> (Inr (Counts (tally n results Map.empty)), g'))"
    by (simp add: step measure_counts_def)
  have labels: "0 < n \<and> r < 2 ^ n \<longrightarrow>
          length (format_bin n r) = n
          \<and> (\<forall>k<n. format_bin n r ! k = (if bit r (n - 1 - k) then CHR ''1'' else CHR ''0''))"
    by (simp add: length_format_bin format_bin_bits)
  show ?thesis
    using head cut labels tally_empty_lookup [of n results lbl] by simp
qed

theorem measurement_returns_labelled_counts_witness:
  "(name (Gate_init ''M'' [0] None) = ''M'' \<or> name (Gate_init ''M'' [0] None) = ''Measure'')
   \<and> build_and_run lcg h_measure_x_2q_circuit None (Some 0) 4 0
       = (Inr (Counts [''00'' \<mapsto> 3, ''10'' \<mapsto> 1]), 4)
   \<and> build_and_run lcg h_measure_2q_circuit None (Some 0) 4 0
       = (Inr (Counts [''00'' \<mapsto> 3, ''10'' \<mapsto> 1]), 4)
   \<and> tally 2 [0, 0, 0, 2] Map.empty ''00'' = Some 3
   \<and> tally 2 [0, 0, 0, 2] Map.empty ''10'' = Some 1
   \<and> tally 2 [0, 0, 0, 2] Map.empty ''0'' = None
   \<and> (0::nat) < 2 \<and> (2::nat) < 2 ^ 2 \<and> length (format_bin 2 2) = 2
   \<and> format_bin 2 2 ! 0 = CHR ''1'' \<and> format_bin 2 2 ! 1 = CHR ''0''"
proof -
  let ?H = "Gate_init ''H'' [0] None" and ?M = "Gate_init ''M'' [0] None"
    and ?X = "Gate_init ''X'' [0] None"
  have h: "name ?M = ''M'' \<or> name ?M = ''Measure''"
    by (simp add: Gate_init_def)
  have i1: "StatevectorSimulator_init lcg h_measure_x_2q_circuit None (Some 0) 0 =
     (Inr \<lparr>circuit = h_measure_x_2q_circuit, sim_num_qubits = 2, sim_state = [1, 0, 0, 0],
           noise_hook = None\<rparr>, 0)"
    by (simp add: StatevectorSimulator_init_def h_measure_x_2q_circuit_def lcg_def lcg_seed_def
        ground_state_2)
  have i2: "StatevectorSimulator_init lcg h_measure_2q_circuit None (Some 0) 0 =
     (Inr \<lparr>circuit = h_measure_2q_circuit, sim_num_qubits = 2, sim_state = [1, 0, 0, 0],
           noise_hook = None\<rparr>, 0)"
    by (simp add: StatevectorSimulator_init_def h_measure_2q_circuit_def lcg_def lcg_seed_def
        ground_state_2)
  have g1: "gates h_measure_x_2q_circuit = [?H] @ ?M # [?X]"
    by (simp add: h_measure_x_2q_circuit_def)
  have g2: "gates h_measure_2q_circuit = [?H, ?M]"
    by (simp add: h_measure_2q_circuit_def)
  note inst = measurement_returns_labelled_counts
      [OF h, of lcg None 2 4 "[?X]" "[1, 0, 0, 0]" 0 "[?H]" "[0, 0, 0, 2]" _ 2]
  have cut: "run_gates lcg None 2 4 ([?H] @ ?M # [?X]) [1, 0, 0, 0] 0
      = run_gates lcg None 2 4 ([?H] @ [?M]) [1, 0, 0, 0] 0"
    using inst [of "''00''"] by (rule conjunct2 [THEN conjunct1])
  have run2: "run_gates lcg None 2 4 [?H, ?M] [1, 0, 0, 0] 0
      = (Inr (Counts [''00'' \<mapsto> 3, ''10'' \<mapsto> 1]), 4)"
    by (rule h_measure_2q_from_0)
  have run1: "run_gates lcg None 2 4 (gates h_measure_x_2q_circuit) [1, 0, 0, 0] 0
      = (Inr (Counts [''00'' \<mapsto> 3, ''10'' \<mapsto> 1]), 4)"
    unfolding g1 using cut run2 by (simp del: run_gates.simps)
  have t: "tally 2 [0, 0, 0, 2] Map.empty ''00'' = Some 3"
      "tally 2 [0, 0, 0, 2] Map.empty ''10'' = Some 1"
      "tally 2 [0, 0, 0, 2] Map.empty ''0'' = None"
    using inst [of "''00''"] inst [of "''10''"] inst [of "''0''"]
    by (simp_all add: format_bin_2_0 format_bin_2_2)
  have l: "length (format_bin 2 2) = 2" "format_bin 2 2 ! 0 = CHR ''1''"
      "format_bin 2 2 ! 1 = CHR ''0''"
  proof -
    have lab: "length (format_bin 2 2) = 2
        \<and> (\<forall>k<2. format_bin 2 2 ! k = (if bit (2::nat) (2 - 1 - k) then CHR ''1'' else CHR ''0''))"
      using inst [of "''00''"] by simp
    then show "length (format_bin 2 2) = 2" by simp
    have every: "\<And>k. k < 2 \<Longrightarrow>
        format_bin 2 2 ! k = (if bit (2::nat) (2 - 1 - k) then CHR ''1'' else CHR ''0'')"
      using lab by simp
    show "format_bin 2 2 ! 0 = CHR ''1''"
      using every [of 0] by (simp add: bit_iff_odd)
    show "format_bin 2 2 ! 1 = CHR ''0''"
      using every [of 1] by (simp add: bit_iff_odd)
  qed
  show ?thesis
    using h run1 run2 t l
    by (simp add: build_and_run_def i1 i2 run_def g2 del: run_gates.simps)
qed

section \<open>C1: normalization\<close>

subsection \<open>Sums of squared moduli\<close>

lemma sum_probs_append: "sum_probs (xs @ ys) = sum_probs xs + sum_probs ys"
  by (simp add: sum_probs_def)

lemma sum_probs_map_upt: "sum_probs (map f [0..<N]) = (\<Sum>i<N. (cmod (f i))\<^sup>2)"
  by (simp add: sum_probs_def comp_def sum_list_sum_nth atLeast0LessThan)

lemma sum_probs_nth: "sum_probs st = (\<Sum>i<length st. (cmod (st ! i))\<^sup>2)"
proof -
  have "sum_probs (map (\<lambda>i. st ! i) [0..<length st]) = (\<Sum>i<length st. (cmod (st ! i))\<^sup>2)"
    by (rule sum_probs_map_upt)
  then show ?thesis by (simp add: map_nth)
qed

lemma sum_probs_permute:
  assumes "bij_betw f {..<N} {..<N}" "length st = N"
  shows "sum_probs (map (\<lambda>i. st ! f i) [0..<N]) = sum_probs st"
proof -
  have "sum_probs (map (\<lambda>i. st ! f i) [0..<N]) = (\<Sum>i<N. (cmod (st ! f i))\<^sup>2)"
    by (rule sum_probs_map_upt)
  also have "\<dots> = (\<Sum>i<N. (cmod (st ! i))\<^sup>2)"
    using assms(1) by (rule sum.reindex_bij_betw)
  finally show ?thesis using assms(2) by (simp add: sum_probs_nth)
qed

lemma involution_bij:
  assumes "\<And>k. k < N \<Longrightarrow> f k < N" "\<And>k. k < N \<Longrightarrow> f (f k) = k"
  shows "bij_betw f {..<N} {..<N}"
  using assms by (intro bij_betw_byWitness [where f' = f]) auto

lemma sum_probs_matmul:
  assumes u: "\<And>a b. (cmod (U ! 0 ! 0 * a + U ! 0 ! 1 * b))\<^sup>2
                    + (cmod (U ! 1 ! 0 * a + U ! 1 ! 1 * b))\<^sup>2 = (cmod a)\<^sup>2 + (cmod b)\<^sup>2"
    and len: "length t = 2 * m"
  shows "sum_probs (matmul U m t) = sum_probs t"
proof -
  have "sum_probs (matmul U m t) =
      (\<Sum>c<m. (cmod (U ! 0 ! 0 * t ! c + U ! 0 ! 1 * t ! (m + c)))\<^sup>2)
    + (\<Sum>c<m. (cmod (U ! 1 ! 0 * t ! c + U ! 1 ! 1 * t ! (m + c)))\<^sup>2)"
    by (simp add: matmul_def sum_probs_append sum_probs_map_upt)
  also have "\<dots> = (\<Sum>c<m. (cmod (U ! 0 ! 0 * t ! c + U ! 0 ! 1 * t ! (m + c)))\<^sup>2
                        + (cmod (U ! 1 ! 0 * t ! c + U ! 1 ! 1 * t ! (m + c)))\<^sup>2)"
    by (simp only: sum.distrib)
  also have "\<dots> = (\<Sum>c<m. (cmod (t ! c))\<^sup>2 + (cmod (t ! (m + c)))\<^sup>2)"
    by (simp only: u)
  also have "\<dots> = (\<Sum>c<m. (cmod (t ! c))\<^sup>2) + (\<Sum>c<m. (cmod (t ! (m + c)))\<^sup>2)"
    by (simp add: sum.distrib)
  also have "\<dots> = sum_probs (map (\<lambda>c. t ! c) [0..<m]) + sum_probs (map (\<lambda>c. t ! (m + c)) [0..<m])"
    by (simp add: sum_probs_map_upt)
  also have "map (\<lambda>c. t ! c) [0..<m] = take m t"
    using len by (auto simp add: list_eq_iff_nth_eq)
  also have "map (\<lambda>c. t ! (m + c)) [0..<m] = drop m t"
    using len by (auto simp add: list_eq_iff_nth_eq)
  also have "sum_probs (take m t) + sum_probs (drop m t) = sum_probs t"
    by (simp add: sum_probs_append [symmetric])
  finally show ?thesis .
qed

subsection \<open>The five matrices\<close>

lemma rotation_preserves:
  fixes c s :: real
  assumes "c\<^sup>2 + s\<^sup>2 = 1"
  shows "(cmod (complex_of_real c * a + - \<i> * complex_of_real s * b))\<^sup>2
       + (cmod (- \<i> * complex_of_real s * a + complex_of_real c * b))\<^sup>2 = (cmod a)\<^sup>2 + (cmod b)\<^sup>2"
proof -
  have "(cmod (complex_of_real c * a + - \<i> * complex_of_real s * b))\<^sup>2
       + (cmod (- \<i> * complex_of_real s * a + complex_of_real c * b))\<^sup>2
      = (c\<^sup>2 + s\<^sup>2) * ((cmod a)\<^sup>2 + (cmod b)\<^sup>2)"
    unfolding cmod_power2 by (simp add: power2_eq_square algebra_simps)
  then show ?thesis using assms by simp
qed

lemma real_rotation_preserves:
  fixes c s :: real
  assumes "c\<^sup>2 + s\<^sup>2 = 1"
  shows "(cmod (complex_of_real c * a + - complex_of_real s * b))\<^sup>2
       + (cmod (complex_of_real s * a + complex_of_real c * b))\<^sup>2 = (cmod a)\<^sup>2 + (cmod b)\<^sup>2"
proof -
  have "(cmod (complex_of_real c * a + - complex_of_real s * b))\<^sup>2
       + (cmod (complex_of_real s * a + complex_of_real c * b))\<^sup>2
      = (c\<^sup>2 + s\<^sup>2) * ((cmod a)\<^sup>2 + (cmod b)\<^sup>2)"
    unfolding cmod_power2 by (simp add: power2_eq_square algebra_simps)
  then show ?thesis using assms by simp
qed

lemma H_preserves:
  "(cmod (H_matrix ! 0 ! 0 * a + H_matrix ! 0 ! 1 * b))\<^sup>2
       + (cmod (H_matrix ! 1 ! 0 * a + H_matrix ! 1 ! 1 * b))\<^sup>2 = (cmod a)\<^sup>2 + (cmod b)\<^sup>2"
proof -
  have h: "(1 / sqrt 2)\<^sup>2 = (1 / 2 :: real)"
    by (simp add: power_divide)
  have "(cmod (complex_of_real (1 / sqrt 2) * a + complex_of_real (1 / sqrt 2) * b))\<^sup>2
       + (cmod (complex_of_real (1 / sqrt 2) * a + - complex_of_real (1 / sqrt 2) * b))\<^sup>2
      = 2 * (1 / sqrt 2)\<^sup>2 * ((cmod a)\<^sup>2 + (cmod b)\<^sup>2)"
    unfolding cmod_power2 by (simp add: power2_eq_square algebra_simps)
  then have "(cmod (complex_of_real (1 / sqrt 2) * a + complex_of_real (1 / sqrt 2) * b))\<^sup>2
       + (cmod (complex_of_real (1 / sqrt 2) * a + - complex_of_real (1 / sqrt 2) * b))\<^sup>2
      = (cmod a)\<^sup>2 + (cmod b)\<^sup>2"
    by (simp only: h) simp
  then show ?thesis by (simp add: H_matrix_def)
qed

lemma X_preserves:
  "(cmod (X_matrix ! 0 ! 0 * a + X_matrix ! 0 ! 1 * b))\<^sup>2
       + (cmod (X_matrix ! 1 ! 0 * a + X_matrix ! 1 ! 1 * b))\<^sup>2 = (cmod a)\<^sup>2 + (cmod b)\<^sup>2"
  by (simp add: X_matrix_def)

lemma RX_preserves:
  "(cmod (RX_matrix th ! 0 ! 0 * a + RX_matrix th ! 0 ! 1 * b))\<^sup>2
       + (cmod (RX_matrix th ! 1 ! 0 * a + RX_matrix th ! 1 ! 1 * b))\<^sup>2 = (cmod a)\<^sup>2 + (cmod b)\<^sup>2"
  using rotation_preserves [of "cos (th / 2)" "sin (th / 2)" a b]
  by (simp add: RX_matrix_def)

lemma RY_preserves:
  "(cmod (RY_matrix th ! 0 ! 0 * a + RY_matrix th ! 0 ! 1 * b))\<^sup>2
       + (cmod (RY_matrix th ! 1 ! 0 * a + RY_matrix th ! 1 ! 1 * b))\<^sup>2 = (cmod a)\<^sup>2 + (cmod b)\<^sup>2"
  using real_rotation_preserves [of "cos (th / 2)" "sin (th / 2)" a b]
  by (simp add: RY_matrix_def)

lemma RZ_preserves:
  "(cmod (RZ_matrix th ! 0 ! 0 * a + RZ_matrix th ! 0 ! 1 * b))\<^sup>2
       + (cmod (RZ_matrix th ! 1 ! 0 * a + RZ_matrix th ! 1 ! 1 * b))\<^sup>2 = (cmod a)\<^sup>2 + (cmod b)\<^sup>2"
  by (simp add: RZ_matrix_def norm_mult norm_exp_eq_Re)

subsection \<open>Single-qubit gates\<close>

lemma apply_unitary_Inr_range:
  assumes "apply_single_qubit_unitary n st U t = Inr r"
  shows "length st = 2 ^ n \<and> 0 \<le> t \<and> t < int n"
proof (rule ccontr)
  assume a: "\<not> (length st = 2 ^ n \<and> 0 \<le> t \<and> t < int n)"
  show False
  proof (cases "length st = 2 ^ n")
    case False
    then show False using assms by (simp add: apply_single_qubit_unitary_def)
  next
    case True
    then have "\<not> (0 \<le> t \<and> t < int n)" using a by simp
    then have "filter (\<lambda>i. i \<noteq> t) (map int [0..<n]) = map int [0..<n]"
      by (auto simp add: filter_id_conv)
    then have "length (t # filter (\<lambda>i. i \<noteq> t) (map int [0..<n])) \<noteq> n"
      by simp
    then have "np_transpose n (t # filter (\<lambda>i. i \<noteq> t) (map int [0..<n])) st = Inl ValueError"
      unfolding np_transpose_def by (simp only: simp_thms if_True)
    then show False using assms True by (simp add: apply_single_qubit_unitary_def)
  qed
qed

lemma transpose_round_trip':
  assumes "0 \<le> t" "t < int n" "i < 2 ^ n"
  shows "transpose_index n (np_argsort (np_argsort (map (normalize_axis n) (target_axes n t))))
           (transpose_index n (np_argsort (map (normalize_axis n) (target_axes n t))) i) = i"
proof -
  let ?p = "map (normalize_axis n) (target_axes n t)"
  have p: "is_perm n ?p" using assms(1,2) by (rule target_axes_perm)
  then have n: "length ?p = n" by (simp add: is_perm_def)
  have r: "is_perm n (np_argsort ?p)" using np_argsort_perm [of ?p] n by simp
  then have r2: "is_perm n (np_argsort (np_argsort ?p))"
    using np_argsort_perm [of "np_argsort ?p"] by (simp add: is_perm_def)
  have "\<And>k. k < n \<Longrightarrow> np_argsort ?p ! (np_argsort (np_argsort ?p) ! k) = k"
    using r by (rule np_argsort_inverse)
  then show ?thesis
    using r r2 assms(3) by (intro transpose_index_inverse)
qed

lemma apply_unitary_sum_probs:
  assumes u: "\<And>a b. (cmod (U ! 0 ! 0 * a + U ! 0 ! 1 * b))\<^sup>2
                    + (cmod (U ! 1 ! 0 * a + U ! 1 ! 1 * b))\<^sup>2 = (cmod a)\<^sup>2 + (cmod b)\<^sup>2"
    and len: "length st = 2 ^ n" and t: "0 \<le> t" "t < int n"
  shows "\<exists>r. apply_single_qubit_unitary n st U t = Inr r \<and> length r = 2 ^ n
            \<and> sum_probs r = sum_probs st"
proof -
  let ?p = "map (normalize_axis n) (target_axes n t)"
  let ?f1 = "transpose_index n (np_argsort ?p)"
  let ?f2 = "transpose_index n (np_argsort (np_argsort ?p))"
  let ?tr = "map (\<lambda>i. st ! ?f1 i) [0..<2 ^ n]"
  let ?t' = "matmul U (2 ^ n div 2) ?tr"
  let ?r = "map (\<lambda>i. ?t' ! ?f2 i) [0..<2 ^ n]"
  have p: "is_perm n ?p" using t by (rule target_axes_perm)
  then have n: "length ?p = n" by (simp add: is_perm_def)
  have r: "is_perm n (np_argsort ?p)" using np_argsort_perm [of ?p] n by simp
  then have r2: "is_perm n (np_argsort (np_argsort ?p))"
    using np_argsort_perm [of "np_argsort ?p"] by (simp add: is_perm_def)
  have b1: "bij_betw ?f1 {..<2 ^ n} {..<2 ^ n}"
    using transpose_round_trip [OF t] transpose_round_trip' [OF t]
      transpose_index_less [OF r] transpose_index_less [OF r2]
    by (intro bij_betw_byWitness [where f' = ?f2]) auto
  have b2: "bij_betw ?f2 {..<2 ^ n} {..<2 ^ n}"
    using transpose_round_trip [OF t] transpose_round_trip' [OF t]
      transpose_index_less [OF r] transpose_index_less [OF r2]
    by (intro bij_betw_byWitness [where f' = ?f1]) auto
  have "0 < n" using t by simp
  then have m: "(2::nat) ^ n = 2 * (2 ^ n div 2)"
    by (cases n) simp_all
  then have lt: "length ?tr = 2 * (2 ^ n div 2)" by simp
  have lt': "length ?t' = 2 ^ n"
    using m by (simp add: matmul_def)
  have "sum_probs ?r = sum_probs ?t'"
    using b2 lt' by (rule sum_probs_permute)
  also have "\<dots> = sum_probs ?tr"
    using u lt by (rule sum_probs_matmul)
  also have "\<dots> = sum_probs st"
    using b1 len by (rule sum_probs_permute)
  finally have "sum_probs ?r = sum_probs st" .
  moreover have "apply_single_qubit_unitary n st U t = Inr ?r"
    using len t by (rule apply_single_qubit_unitary_eq)
  moreover have "length ?r = 2 ^ n" by simp
  ultimately show ?thesis by blast
qed

subsection \<open>\<open>SWAP\<close>\<close>

lemma swap_loop_Inr:
  assumes "swap_loop st a b ixs new = Inr r" "i \<in> set ixs"
  shows "0 \<le> a \<and> 0 \<le> b \<and>
         (bit i (nat a) \<noteq> bit i (nat b) \<longrightarrow> swap_index (nat a) (nat b) i < length st)"
  using assms
proof (induction ixs arbitrary: new)
  case Nil
  then show ?case by simp
next
  case (Cons k ixs)
  have ab: "0 \<le> a \<and> 0 \<le> b"
    using Cons.prems(1) by (auto split: if_splits)
  show ?case
  proof (cases "bit k (nat a) = bit k (nat b)")
    case True
    then have "swap_loop st a b ixs (new[k := st ! k]) = Inr r"
      using Cons.prems(1) ab by (simp add: bits_differ Let_def)
    then show ?thesis
      using Cons.IH Cons.prems(2) True ab by auto
  next
    case False
    then have 1: "swap_index (nat a) (nat b) k < length st"
      using Cons.prems(1) ab
      by (auto simp add: bits_differ Let_def swap_index_def split: if_splits)
    then have "swap_loop st a b ixs (new[k := st ! swap_index (nat a) (nat b) k]) = Inr r"
      using Cons.prems(1) ab by (simp add: swap_loop_step del: swap_loop.simps)
    then show ?thesis
      using Cons.IH Cons.prems(2) 1 ab by auto
  qed
qed

lemma apply_swap_sum_probs:
  assumes "apply_swap st a b = Inr r"
  shows "length r = length st \<and> sum_probs r = sum_probs st"
proof (cases "st = []")
  case True
  then show ?thesis using assms by (simp add: apply_swap_def)
next
  case False
  let ?f = "swap_index (nat a) (nat b)"
  have ab: "0 \<le> a" "0 \<le> b"
    using swap_loop_Inr [of st a b "[0..<length st]" st r 0] assms False
    by (simp_all add: apply_swap_def)
  have less: "\<And>k. k < length st \<Longrightarrow> ?f k < length st"
  proof -
    fix k assume k: "k < length st"
    show "?f k < length st"
    proof (cases "bit k (nat a) = bit k (nat b)")
      case True
      then show ?thesis using k by (simp add: swap_index_def)
    next
      case False
      then show ?thesis
        using swap_loop_Inr [of st a b "[0..<length st]" st r k] assms k
        by (simp add: apply_swap_def)
    qed
  qed
  then have "\<forall>i\<in>set [0..<length st]. ?f i < length st" by simp
  then have r: "r = map (\<lambda>i. st ! ?f i) [0..<length st]"
    using assms ab by (simp add: apply_swap_def swap_loop_fold fold_update_all)
  have "bij_betw ?f {..<length st} {..<length st}"
    using less by (intro involution_bij) (simp_all add: swap_index_involution)
  then have "sum_probs (map (\<lambda>i. st ! ?f i) [0..<length st]) = sum_probs st"
    by (rule sum_probs_permute) simp
  then show ?thesis using r by simp
qed

subsection \<open>\<open>CNOT\<close>\<close>

lemma control_bit: "drop_bit c (i::nat) AND 1 = 1 \<longleftrightarrow> bit i c"
  by (simp add: and_one_eq mod_2_eq_odd bit_iff_odd_drop_bit)

lemma cnot_loop_skip:
  assumes "0 \<le> c" "\<not> bit i (nat c)"
  shows "cnot_loop st c t (i # rest) new = cnot_loop st c t rest new"
proof -
  have "drop_bit (nat c) i AND 1 \<noteq> 1" using assms(2) by (simp only: control_bit not_False_eq_True)
  then show ?thesis using assms(1) by (simp only: cnot_loop.simps) simp
qed

lemma cnot_loop_swap:
  assumes "0 \<le> c" "bit i (nat c)" "0 \<le> t" "i XOR 2 ^ nat t < length st"
  shows "cnot_loop st c t (i # rest) new =
           cnot_loop st c t rest (new[i := st ! (i XOR 2 ^ nat t), i XOR 2 ^ nat t := st ! i])"
proof -
  have "drop_bit (nat c) i AND 1 = 1" using assms(2) by (simp only: control_bit)
  then show ?thesis using assms(1,3,4) by (simp only: cnot_loop.simps) (simp add: Let_def)
qed

lemma cnot_loop_raises:
  assumes "c < 0 \<or> (bit i (nat c) \<and> (t < 0 \<or> \<not> i XOR 2 ^ nat t < length st))"
  shows "\<exists>e. cnot_loop st c t (i # rest) new = Inl e"
proof (cases "c < 0")
  case True
  then show ?thesis by simp
next
  case False
  then have b: "drop_bit (nat c) i AND 1 = 1" using assms by (simp only: control_bit) simp
  show ?thesis
    using assms False by (simp only: cnot_loop.simps b) (auto simp add: Let_def)
qed

lemma cnot_loop_fold:
  assumes "0 \<le> c" "\<forall>i\<in>set ixs. bit i (nat c) \<longrightarrow> 0 \<le> t \<and> i XOR 2 ^ nat t < length st"
  shows "cnot_loop st c t ixs new =
    Inr (fold (\<lambda>i nw. if bit i (nat c)
                       then nw[i := st ! (i XOR 2 ^ nat t), i XOR 2 ^ nat t := st ! i] else nw)
           ixs new)"
  using assms(2)
proof (induction ixs arbitrary: new)
  case Nil
  show ?case by simp
next
  case (Cons i ixs)
  have rest: "\<forall>i\<in>set ixs. bit i (nat c) \<longrightarrow> 0 \<le> t \<and> i XOR 2 ^ nat t < length st"
    using Cons.prems by simp
  note IH = Cons.IH [OF rest]
  show ?case
  proof (cases "bit i (nat c)")
    case True
    then have "0 \<le> t" "i XOR 2 ^ nat t < length st" using Cons.prems by simp_all
    then show ?thesis
      using True assms(1) by (simp add: cnot_loop_swap IH del: cnot_loop.simps)
  next
    case False
    then show ?thesis
      using assms(1) by (simp add: cnot_loop_skip IH del: cnot_loop.simps)
  qed
qed

lemma cnot_loop_Inr:
  assumes "cnot_loop st c t ixs new = Inr r" "i \<in> set ixs"
  shows "0 \<le> c \<and> (bit i (nat c) \<longrightarrow> 0 \<le> t \<and> i XOR 2 ^ nat t < length st)"
  using assms
proof (induction ixs arbitrary: new)
  case Nil
  then show ?case by simp
next
  case (Cons k ixs)
  have ok: "\<not> (c < 0 \<or> (bit k (nat c) \<and> (t < 0 \<or> \<not> k XOR 2 ^ nat t < length st)))"
    using cnot_loop_raises [of c k t st ixs new] Cons.prems(1) by auto
  then have c: "0 \<le> c" by simp
  show ?case
  proof (cases "bit k (nat c)")
    case True
    then have "cnot_loop st c t ixs (new[k := st ! (k XOR 2 ^ nat t), k XOR 2 ^ nat t := st ! k]) = Inr r"
      using Cons.prems(1) ok by (simp add: cnot_loop_swap del: cnot_loop.simps)
    then show ?thesis
      using Cons.IH Cons.prems(2) ok True by auto
  next
    case False
    then have "cnot_loop st c t ixs new = Inr r"
      using Cons.prems(1) c by (simp add: cnot_loop_skip del: cnot_loop.simps)
    then show ?thesis
      using Cons.IH Cons.prems(2) c False by auto
  qed
qed

lemma cnot_fold_upt:
  fixes st :: "'a list"
  assumes inv: "\<And>k. f (f k) = k" and neq: "\<And>k. f k \<noteq> k"
    and less: "\<And>k. k < N \<Longrightarrow> P k \<Longrightarrow> f k < N" and len: "length st = N"
  shows "m \<le> N \<Longrightarrow>
    fold (\<lambda>i nw. if P i then nw[i := st ! f i, f i := st ! i] else nw) [0..<m] st =
      map (\<lambda>k. if (k < m \<and> P k) \<or> (f k < m \<and> P (f k)) then st ! f k else st ! k) [0..<N]"
proof (induction m)
  case 0
  then show ?case by (simp add: len [symmetric] map_nth)
next
  case (Suc m)
  let ?g = "\<lambda>m k. if (k < m \<and> P k) \<or> (f k < m \<and> P (f k)) then st ! f k else st ! k"
  let ?new = "map (?g m) [0..<N]"
  have m: "m < N" using Suc.prems by simp
  have step: "fold (\<lambda>i nw. if P i then nw[i := st ! f i, f i := st ! i] else nw) [0..<Suc m] st =
      (if P m then ?new[m := st ! f m, f m := st ! m] else ?new)"
    using Suc by simp
  have "(if P m then ?new[m := st ! f m, f m := st ! m] else ?new) = map (?g (Suc m)) [0..<N]"
  proof (rule nth_equalityI)
    show "length (if P m then ?new[m := st ! f m, f m := st ! m] else ?new)
            = length (map (?g (Suc m)) [0..<N])"
      by simp
  next
    fix k assume "k < length (if P m then ?new[m := st ! f m, f m := st ! m] else ?new)"
    then have k: "k < N" by (simp split: if_splits)
    show "(if P m then ?new[m := st ! f m, f m := st ! m] else ?new) ! k
            = map (?g (Suc m)) [0..<N] ! k"
    proof (cases "P m")
      case True
      then have fm: "f m < N" using m less by simp
      consider "k = f m" | "k = m" | "k \<noteq> f m" "k \<noteq> m" by blast
      then show ?thesis
      proof cases
        case 1
        then show ?thesis
          using True m k fm inv [of m] neq [of m] by (auto simp add: less_Suc_eq)
      next
        case 2
        then show ?thesis
          using True m k fm inv [of m] neq [of m] by (auto simp add: less_Suc_eq)
      next
        case 3
        then have "f k \<noteq> m" using inv [of k] by auto
        then show ?thesis
          using 3 True m k fm by (auto simp add: less_Suc_eq)
      qed
    next
      case False
      then show ?thesis
        using m k by (auto simp add: less_Suc_eq)
    qed
  qed
  then show ?case using step by simp
qed

lemma apply_cnot_eq:
  assumes "0 \<le> c" "0 \<le> t"
    and "\<And>i. i < length st \<Longrightarrow> bit i (nat c) \<Longrightarrow> i XOR 2 ^ nat t < length st"
  shows "apply_cnot st c t =
    Inr (map (\<lambda>k. st ! cnot_index (nat c) (nat t) (length st) k) [0..<length st])"
proof -
  let ?f = "\<lambda>i::nat. i XOR 2 ^ nat t"
  have "apply_cnot st c t =
    Inr (fold (\<lambda>i nw. if bit i (nat c) then nw[i := st ! ?f i, ?f i := st ! i] else nw)
           [0..<length st] st)"
    using assms by (simp add: apply_cnot_def cnot_loop_fold)
  also have "fold (\<lambda>i nw. if bit i (nat c) then nw[i := st ! ?f i, ?f i := st ! i] else nw)
           [0..<length st] st =
      map (\<lambda>k. if (k < length st \<and> bit k (nat c)) \<or> (?f k < length st \<and> bit (?f k) (nat c))
                then st ! ?f k else st ! k) [0..<length st]"
    using assms(3)
    by (intro cnot_fold_upt) (simp_all add: flip_index_involution flip_index_neq)
  also have "\<dots> = map (\<lambda>k. st ! cnot_index (nat c) (nat t) (length st) k) [0..<length st]"
    by (simp add: cnot_index_def)
  finally show ?thesis .
qed

lemma cnot_index_bij:
  assumes "\<And>i. i < N \<Longrightarrow> bit i c \<Longrightarrow> i XOR 2 ^ t < N"
  shows "bij_betw (cnot_index c t N) {..<N} {..<N}"
proof (rule involution_bij)
  fix k assume k: "k < N"
  show "cnot_index c t N k < N"
    using k assms by (auto simp add: cnot_index_def)
  show "cnot_index c t N (cnot_index c t N k) = k"
    using k assms by (auto simp add: cnot_index_def flip_index_involution)
qed

lemma apply_cnot_sum_probs:
  assumes "apply_cnot st c t = Inr r"
  shows "length r = length st \<and> sum_probs r = sum_probs st"
proof (cases "\<exists>i<length st. bit i (nat c)")
  case False
  have "0 \<le> c \<or> st = []"
    using cnot_loop_Inr [of st c t "[0..<length st]" st r 0] assms
    by (cases st) (simp_all add: apply_cnot_def)
  then have "apply_cnot st c t = Inr st"
  proof
    assume "st = []"
    then show ?thesis by (simp add: apply_cnot_def)
  next
    assume c: "0 \<le> c"
    have "\<And>ixs new. \<forall>i\<in>set ixs. \<not> bit i (nat c) \<Longrightarrow> cnot_loop st c t ixs new = Inr new"
    proof -
      fix ixs :: "nat list" and new
      show "\<forall>i\<in>set ixs. \<not> bit i (nat c) \<Longrightarrow> cnot_loop st c t ixs new = Inr new"
        using c by (induction ixs arbitrary: new) (simp_all add: cnot_loop_skip del: cnot_loop.simps(2))
    qed
    then show ?thesis using False by (simp add: apply_cnot_def)
  qed
  then show ?thesis using assms by simp
next
  case True
  then obtain i0 where i0: "i0 < length st" "bit i0 (nat c)" by blast
  have c: "0 \<le> c" and t: "0 \<le> t"
    using cnot_loop_Inr [of st c t "[0..<length st]" st r i0] assms i0
    by (simp_all add: apply_cnot_def)
  have less: "\<And>i. i < length st \<Longrightarrow> bit i (nat c) \<Longrightarrow> i XOR 2 ^ nat t < length st"
    using cnot_loop_Inr [of st c t "[0..<length st]" st r] assms
    by (simp add: apply_cnot_def)
  have r: "r = map (\<lambda>k. st ! cnot_index (nat c) (nat t) (length st) k) [0..<length st]"
    using apply_cnot_eq [OF c t less] assms by simp
  have "bij_betw (cnot_index (nat c) (nat t) (length st)) {..<length st} {..<length st}"
    using less by (rule cnot_index_bij)
  then have "sum_probs (map (\<lambda>k. st ! cnot_index (nat c) (nat t) (length st) k) [0..<length st])
      = sum_probs st"
    by (rule sum_probs_permute) simp
  then show ?thesis using r by simp
qed

lemma apply_cnot_total:
  assumes "length st = 2 ^ n" "0 \<le> c" "0 \<le> t" "t < int n"
  shows "\<exists>r. apply_cnot st c t = Inr r"
proof -
  have "\<And>i. i < length st \<Longrightarrow> bit i (nat c) \<Longrightarrow> i XOR 2 ^ nat t < length st"
    using assms by (simp add: flip_index_less)
  then show ?thesis using apply_cnot_eq [OF assms(2,3)] by blast
qed

subsection \<open>The loop of \<open>run\<close> without a noise hook\<close>

lemma on_target_unitary_Continue:
  assumes u: "\<And>a b. (cmod (U ! 0 ! 0 * a + U ! 0 ! 1 * b))\<^sup>2
                    + (cmod (U ! 1 ! 0 * a + U ! 1 ! 1 * b))\<^sup>2 = (cmod a)\<^sup>2 + (cmod b)\<^sup>2"
    and c: "on_target gate (apply_single_qubit_unitary n st U) g = Continue st'"
  shows "sum_probs st' = sum_probs st"
proof -
  obtain t ts where t: "targets gate = t # ts" and a: "apply_single_qubit_unitary n st U t = Inr st'"
    using c by (auto simp add: on_target_def split: list.splits sum.splits)
  have "length st = 2 ^ n \<and> 0 \<le> t \<and> t < int n"
    using a by (rule apply_unitary_Inr_range)
  then show ?thesis
    using apply_unitary_sum_probs [of U st n t, OF u] a by auto
qed

lemma on_target_unitary_total:
  assumes u: "\<And>a b. (cmod (U ! 0 ! 0 * a + U ! 0 ! 1 * b))\<^sup>2
                    + (cmod (U ! 1 ! 0 * a + U ! 1 ! 1 * b))\<^sup>2 = (cmod a)\<^sup>2 + (cmod b)\<^sup>2"
    and "targets gate = t # ts" "0 \<le> t" "t < int n" "length st = 2 ^ n"
  shows "\<exists>st'. on_target gate (apply_single_qubit_unitary n st U) g = Continue st'
            \<and> length st' = 2 ^ n"
  using apply_unitary_sum_probs [of U st n t, OF u] assms(2-)
  by (auto simp add: on_target_def)

lemma on_two_targets_Continue:
  assumes "on_two_targets gate f g = Continue st'"
  shows "\<exists>t0 t1. f t0 t1 = Inr st'"
  using assms by (auto simp add: on_two_targets_def split: list.splits sum.splits)

lemma gate_step_preserves:
  assumes "name gate \<in> unitary_gate_names" "gate_step R n shots gate st g = Continue st'"
  shows "sum_probs st' = sum_probs st"
proof -
  consider "name gate = ''H''" | "name gate = ''X''" | "name gate = ''RX''" | "name gate = ''RY''"
    | "name gate = ''RZ''" | "name gate = ''CNOT''" | "name gate = ''SWAP''"
    | "name gate \<in> {''Y'', ''Z'', ''S'', ''T''}"
    using assms(1) by (auto simp add: unitary_gate_names_def)
  then show ?thesis
  proof cases
    case 1
    then have "on_target gate (apply_single_qubit_unitary n st H_matrix) g = Continue st'"
      using assms(2) by (simp add: gate_step_def)
    with H_preserves show ?thesis by (rule on_target_unitary_Continue)
  next
    case 2
    then have "on_target gate (apply_single_qubit_unitary n st X_matrix) g = Continue st'"
      using assms(2) by (simp add: gate_step_def)
    with X_preserves show ?thesis by (rule on_target_unitary_Continue)
  next
    case 3
    then have "on_target gate (apply_single_qubit_unitary n st (RX_matrix (theta_of gate))) g
        = Continue st'"
      using assms(2) by (simp add: gate_step_def)
    with RX_preserves show ?thesis by (rule on_target_unitary_Continue)
  next
    case 4
    then have "on_target gate (apply_single_qubit_unitary n st (RY_matrix (theta_of gate))) g
        = Continue st'"
      using assms(2) by (simp add: gate_step_def)
    with RY_preserves show ?thesis by (rule on_target_unitary_Continue)
  next
    case 5
    then have "on_target gate (apply_single_qubit_unitary n st (RZ_matrix (theta_of gate))) g
        = Continue st'"
      using assms(2) by (simp add: gate_step_def)
    with RZ_preserves show ?thesis by (rule on_target_unitary_Continue)
  next
    case 6
    then have "on_two_targets gate (apply_cnot st) g = Continue st'"
      using assms(2) by (simp add: gate_step_def)
    then obtain t0 t1 where "apply_cnot st t0 t1 = Inr st'"
      using on_two_targets_Continue [of gate "apply_cnot st" g st'] by blast
    then show ?thesis
      using apply_cnot_sum_probs by simp
  next
    case 7
    then have "on_two_targets gate (apply_swap st) g = Continue st'"
      using assms(2) by (simp add: gate_step_def)
    then obtain t0 t1 where "apply_swap st t0 t1 = Inr st'"
      using on_two_targets_Continue [of gate "apply_swap st" g st'] by blast
    then show ?thesis
      using apply_swap_sum_probs by simp
  next
    case 8
    then have "gate_step R n shots gate st g = Continue st"
      by (auto simp add: gate_step_def)
    then show ?thesis using assms(2) by simp
  qed
qed

lemma gate_step_no_counts:
  assumes "name gate \<in> unitary_gate_names" "gate_step R n shots gate st g = Return r"
  shows "\<exists>e. r = (Inl e, g)"
  using assms
  by (auto simp add: unitary_gate_names_def gate_step_def on_target_def on_two_targets_def
      split: list.splits sum.splits)

lemma gate_step_total:
  assumes "name gate \<in> unitary_gate_names" "targets_in_range n gate" "length st = 2 ^ n"
  shows "\<exists>st'. gate_step R n shots gate st g = Continue st' \<and> length st' = 2 ^ n"
proof -
  consider "name gate = ''H''" | "name gate = ''X''" | "name gate = ''RX''" | "name gate = ''RY''"
    | "name gate = ''RZ''" | "name gate = ''CNOT''" | "name gate = ''SWAP''"
    | "name gate \<in> {''Y'', ''Z'', ''S'', ''T''}"
    using assms(1) by (auto simp add: unitary_gate_names_def)
  then show ?thesis
  proof cases
    case 1
    then obtain t ts where "targets gate = t # ts" "0 \<le> t" "t < int n"
      using assms(2) by (auto simp add: targets_in_range_def split: list.splits)
    then show ?thesis
      using 1 on_target_unitary_total [of H_matrix gate t ts n st g, OF H_preserves] assms(3)
      by (simp add: gate_step_def)
  next
    case 2
    then obtain t ts where "targets gate = t # ts" "0 \<le> t" "t < int n"
      using assms(2) by (auto simp add: targets_in_range_def split: list.splits)
    then show ?thesis
      using 2 on_target_unitary_total [of X_matrix gate t ts n st g, OF X_preserves] assms(3)
      by (simp add: gate_step_def)
  next
    case 3
    then obtain t ts where "targets gate = t # ts" "0 \<le> t" "t < int n"
      using assms(2) by (auto simp add: targets_in_range_def split: list.splits)
    then show ?thesis
      using 3 on_target_unitary_total
        [of "RX_matrix (theta_of gate)" gate t ts n st g, OF RX_preserves] assms(3)
      by (simp add: gate_step_def)
  next
    case 4
    then obtain t ts where "targets gate = t # ts" "0 \<le> t" "t < int n"
      using assms(2) by (auto simp add: targets_in_range_def split: list.splits)
    then show ?thesis
      using 4 on_target_unitary_total
        [of "RY_matrix (theta_of gate)" gate t ts n st g, OF RY_preserves] assms(3)
      by (simp add: gate_step_def)
  next
    case 5
    then obtain t ts where "targets gate = t # ts" "0 \<le> t" "t < int n"
      using assms(2) by (auto simp add: targets_in_range_def split: list.splits)
    then show ?thesis
      using 5 on_target_unitary_total
        [of "RZ_matrix (theta_of gate)" gate t ts n st g, OF RZ_preserves] assms(3)
      by (simp add: gate_step_def)
  next
    case 6
    then obtain t0 t1 ts where t: "targets gate = t0 # t1 # ts"
        "0 \<le> t0" "t0 < int n" "0 \<le> t1" "t1 < int n"
      using assms(2) by (auto simp add: targets_in_range_def split: list.splits)
    then obtain r where r: "apply_cnot st t0 t1 = Inr r"
      using apply_cnot_total [of st n t0 t1] assms(3) by blast
    then have "length r = 2 ^ n" using apply_cnot_sum_probs [OF r] assms(3) by simp
    then show ?thesis
      using 6 t r by (simp add: gate_step_def on_two_targets_def)
  next
    case 7
    then obtain t0 t1 ts where t: "targets gate = t0 # t1 # ts"
        "0 \<le> t0" "t0 < int n" "0 \<le> t1" "t1 < int n"
      using assms(2) by (auto simp add: targets_in_range_def split: list.splits)
    then show ?thesis
      using 7 apply_swap_eq [of st n t0 t1] assms(3)
      by (simp add: gate_step_def on_two_targets_def)
  next
    case 8
    then have "gate_step R n shots gate st g = Continue st"
      by (auto simp add: gate_step_def)
    then show ?thesis using assms(3) by simp
  qed
qed

lemma run_gates_preserves_hook:
  assumes names: "\<forall>gate\<in>set gs. name gate \<in> unitary_gate_names"
    and hookp: "\<And>h st gate g w out g'.
        hook = Some h \<Longrightarrow> h st gate g = (w, out, g') \<Longrightarrow>
        (case out of Inl e \<Rightarrow> sum_probs w = sum_probs st
                   | Inr st' \<Rightarrow> sum_probs st' = sum_probs st)"
    and res: "fst (run_gates R hook n shots gs st g) = Inr res"
  shows "\<exists>st'. res = Statevector st' \<and> sum_probs st' = sum_probs st"
  using names res
proof (induction gs arbitrary: st g)
  case Nil
  then show ?case by auto
next
  case (Cons gate gs)
  have rest: "\<forall>gate\<in>set gs. name gate \<in> unitary_gate_names"
    using Cons.prems(1) by simp
  note IH = Cons.IH [OF rest]
  show ?case
  proof (cases "gate_step R n shots gate st g")
    case (Return r)
    then have "\<exists>e. r = (Inl e, g)"
      using Cons.prems(1) by (intro gate_step_no_counts [of gate R n shots st]) simp_all
    then show ?thesis using Cons.prems(2) Return by auto
  next
    case (Continue st1)
    have s1: "sum_probs st1 = sum_probs st"
      using Cons.prems(1) Continue by (intro gate_step_preserves [of gate R n shots st g]) simp_all
    show ?thesis
    proof (cases hook)
      case None
      then have "fst (run_gates R hook n shots gs st1 g) = Inr res"
        using Cons.prems(2) Continue by simp
      then have "\<exists>st'. res = Statevector st' \<and> sum_probs st' = sum_probs st1"
        by (rule IH)
      then show ?thesis using s1 by simp
    next
      case (Some h)
      obtain w out g' where out: "h st1 gate g = (w, out, g')"
        by (cases "h st1 gate g") auto
      show ?thesis
      proof (cases out)
        case (Inl e)
        show ?thesis
        proof (cases "is_Exception e")
          case True
          then have "fst (run_gates R hook n shots gs w g') = Inr res"
            using Cons.prems(2) Continue Some out Inl by simp
          then have "\<exists>st'. res = Statevector st' \<and> sum_probs st' = sum_probs w"
            by (rule IH)
          moreover have "sum_probs w = sum_probs st1"
            using hookp [OF Some out] Inl by simp
          ultimately show ?thesis using s1 by simp
        next
          case False
          then show ?thesis
            using Cons.prems(2) Continue Some out Inl by simp
        qed
      next
        case (Inr st2)
        then have "fst (run_gates R hook n shots gs st2 g') = Inr res"
          using Cons.prems(2) Continue Some out by simp
        then have "\<exists>st'. res = Statevector st' \<and> sum_probs st' = sum_probs st2"
          by (rule IH)
        moreover have "sum_probs st2 = sum_probs st1"
          using hookp [OF Some out] Inr by simp
        ultimately show ?thesis using s1 by simp
      qed
    qed
  qed
qed

lemma run_gates_total:
  assumes "\<forall>gate\<in>set gs. name gate \<in> unitary_gate_names"
    and "\<forall>gate\<in>set gs. targets_in_range n gate" and "length st = 2 ^ n"
  shows "\<exists>st'. run_gates R None n shots gs st g = (Inr (Statevector st'), g) \<and> length st' = 2 ^ n"
  using assms
proof (induction gs arbitrary: st)
  case Nil
  then show ?case by simp
next
  case (Cons gate gs)
  obtain st1 where s: "gate_step R n shots gate st g = Continue st1" "length st1 = 2 ^ n"
    using gate_step_total [of gate n st R shots g] Cons.prems by auto
  then show ?case
    using Cons.IH [of st1] Cons.prems by simp
qed

lemma sum_probs_ground: "sum_probs ((replicate (2 ^ n) 0)[0 := 1]) = 1"
proof -
  have "(replicate (2 ^ n) (0::complex))[0 := 1] = 1 # replicate (2 ^ n - 1) 0"
    by (cases "(2::nat) ^ n") simp_all
  then show ?thesis by (simp add: sum_probs_def sum_list_replicate)
qed

lemma run_x_cnot:
  "run R \<lparr>circuit = x_cnot_circuit, sim_num_qubits = 2, sim_state = [1, 0, 0, 0],
           noise_hook = None\<rparr> shots g = (Inr (Statevector [0, 0, 1, 0]), g)"
  by (simp add: run_def gates_x_cnot Gate_init_def gate_step_def on_target_def on_two_targets_def
      x_on_ground_2 cnot_on_index_2)

text \<open>
  C1: for a simulator over a circuit whose gate names are among H, X, Y, Z, S, T, RX, RY,
  RZ, CNOT, SWAP, with no noise hook or with a hook that keeps \<open>sum |amplitude|^2\<close> in
  the array it returns or leaves behind when it raises (the specification exempts the
  simplified noise channels from the invariant), any amplitude
  vector that \<open>run\<close> returns has \<open>sum |amplitude|^2 = 1\<close>, and \<open>run\<close> never returns
  counts. Without a hook and with targets that are qubits of the simulator, \<open>run\<close> does
  return such a vector. Amplitudes are exact complex numbers here, so the sum is exactly 1,
  which is within the tolerance of the claim.
\<close>

theorem run_preserves_normalization:
  assumes "StatevectorSimulator_init R circ hook seed g0 = (Inr self, g)"
    and "\<forall>gate\<in>set (gates circ). name gate \<in> unitary_gate_names"
    and "\<forall>h. hook = Some h \<longrightarrow>
           (\<forall>st gate g w out g'. h st gate g = (w, out, g') \<longrightarrow>
              (case out of Inl e \<Rightarrow> sum_probs w = sum_probs st
                         | Inr st' \<Rightarrow> sum_probs st' = sum_probs st))"
  shows "(\<forall>st. fst (run R self shots g) = Inr (Statevector st) \<longrightarrow> sum_probs st = 1)
       \<and> (\<forall>c. fst (run R self shots g) \<noteq> Inr (Counts c))
       \<and> (hook = None \<and> (\<forall>gate\<in>set (gates circ). targets_in_range (nat (num_qubits circ)) gate)
            \<longrightarrow> (\<exists>st. run R self shots g = (Inr (Statevector st), g)
                  \<and> length st = 2 ^ nat (num_qubits circ) \<and> sum_probs st = 1))"
proof -
  let ?n = "nat (num_qubits circ)"
  let ?st0 = "(replicate (2 ^ ?n) (0::complex))[0 := 1]"
  have self: "self = \<lparr>circuit = circ, sim_num_qubits = ?n, sim_state = ?st0, noise_hook = hook\<rparr>"
    using assms(1)
    by (auto simp add: StatevectorSimulator_init_def Let_def split: if_splits option.splits sum.splits)
  then have run: "run R self shots g = run_gates R hook ?n shots (gates circ) ?st0 g"
    by (simp add: run_def)
  have hookp: "\<And>h st gate g w out g'.
        hook = Some h \<Longrightarrow> h st gate g = (w, out, g') \<Longrightarrow>
        (case out of Inl e \<Rightarrow> sum_probs w = sum_probs st
                   | Inr st' \<Rightarrow> sum_probs st' = sum_probs st)"
    using assms(3) by blast
  have part: "\<And>res. fst (run R self shots g) = Inr res \<Longrightarrow>
      \<exists>st'. res = Statevector st' \<and> sum_probs st' = 1"
    using run_gates_preserves_hook
      [where hook = hook and R = R and n = ?n and shots = shots and st = ?st0 and g = g,
       OF assms(2) hookp] run
    by (simp add: sum_probs_ground)
  have 1: "\<forall>st. fst (run R self shots g) = Inr (Statevector st) \<longrightarrow> sum_probs st = 1"
    using part by auto
  have 2: "\<forall>c. fst (run R self shots g) \<noteq> Inr (Counts c)"
    using part by auto
  have 3: "hook = None \<and> (\<forall>gate\<in>set (gates circ). targets_in_range ?n gate) \<longrightarrow>
            (\<exists>st. run R self shots g = (Inr (Statevector st), g)
                  \<and> length st = 2 ^ ?n \<and> sum_probs st = 1)"
  proof
    assume a: "hook = None \<and> (\<forall>gate\<in>set (gates circ). targets_in_range ?n gate)"
    then obtain st where st: "run R self shots g = (Inr (Statevector st), g)" "length st = 2 ^ ?n"
      using run_gates_total [OF assms(2), of ?n ?st0 R shots g] run by auto
    then have "sum_probs st = 1" using 1 by simp
    then show "\<exists>st. run R self shots g = (Inr (Statevector st), g)
                  \<and> length st = 2 ^ ?n \<and> sum_probs st = 1"
      using st by blast
  qed
  show ?thesis using 1 2 3 by blast
qed

theorem run_preserves_normalization_witness:
  "StatevectorSimulator_init lcg x_cnot_circuit None None 0 =
     (Inr \<lparr>circuit = x_cnot_circuit, sim_num_qubits = 2, sim_state = [1, 0, 0, 0],
           noise_hook = None\<rparr>, 0)
   \<and> name (Gate_init ''X'' [0] None) \<in> unitary_gate_names
   \<and> name (Gate_init ''CNOT'' [0, 1] None) \<in> unitary_gate_names
   \<and> targets_in_range 2 (Gate_init ''X'' [0] None)
   \<and> targets_in_range 2 (Gate_init ''CNOT'' [0, 1] None)
   \<and> run lcg \<lparr>circuit = x_cnot_circuit, sim_num_qubits = 2, sim_state = [1, 0, 0, 0],
                noise_hook = None\<rparr> 1024 0 = (Inr (Statevector [0, 0, 1, 0]), 0)
   \<and> sum_probs [0, 0, 1, 0] = 1"
proof -
  have i: "StatevectorSimulator_init lcg x_cnot_circuit None None 0 =
     (Inr \<lparr>circuit = x_cnot_circuit, sim_num_qubits = 2, sim_state = [1, 0, 0, 0],
           noise_hook = None\<rparr>, 0)"
    by (rule init_x_cnot)
  have n: "\<forall>gate\<in>set (gates x_cnot_circuit). name gate \<in> unitary_gate_names"
    by (simp add: gates_x_cnot Gate_init_def unitary_gate_names_def)
  have h: "\<forall>h. (None :: nat noise_hook option) = Some h \<longrightarrow>
           (\<forall>st gate g w out g'. h st gate g = (w, out, g') \<longrightarrow>
              (case out of Inl e \<Rightarrow> sum_probs w = sum_probs st
                         | Inr st' \<Rightarrow> sum_probs st' = sum_probs st))"
    by simp
  have t: "targets_in_range 2 (Gate_init ''X'' [0] None)"
      "targets_in_range 2 (Gate_init ''CNOT'' [0, 1] None)"
    by (simp_all add: targets_in_range_def Gate_init_def)
  show ?thesis
    using i n t run_x_cnot [of lcg 1024 0] run_preserves_normalization [OF i n h, of 1024]
    by (simp add: gates_x_cnot)
qed

end
